theory Spec2Isabelle
  imports Complex_Main "HOL-Library.Product_Lexorder"
begin

section \<open>Tower Trek: the grid, path search and pursuit engine of \<^verbatim>\<open>tower_trek.py\<close>\<close>

subsection \<open>Data model\<close>

text \<open>
  Positions are Python tuples \<^verbatim>\<open>(x, y)\<close> of unbounded integers. Python compares tuples
  lexicographically, which is the order that the theory Product_Lexorder puts on pairs.
\<close>

type_synonym pos = "int \<times> int"

datatype GameState = MENU | PLAYING | GAME_OVER | LEVEL_COMPLETE

datatype Difficulty = EASY | MEDIUM | HARD

datatype py_error = IndexError | KeyError | OverflowError

record Cell =
  cell_x :: int
  cell_y :: int
  is_obstacle :: bool
  is_goal :: bool
  is_start :: bool

definition new_Cell :: "int \<Rightarrow> int \<Rightarrow> Cell" where
  "new_Cell x y = \<lparr>cell_x = x, cell_y = y, is_obstacle = False, is_goal = False, is_start = False\<rparr>"

record Grid =
  width :: int
  height :: int
  difficulty :: Difficulty
  cells :: "Cell list list"
  player_pos :: pos
  ai_pos :: pos
  goal_pos :: pos

text \<open>
  \<^verbatim>\<open>Grid.__init__\<close> builds \<^verbatim>\<open>cells\<close> as \<^verbatim>\<open>width\<close> columns of \<^verbatim>\<open>height\<close> cells, and nothing
  changes that shape afterwards. On such a grid every \<^verbatim>\<open>cells[x][y]\<close> that the methods below
  read comes after a bounds check, so the list reads of the model are in range.
\<close>

definition grid_wf :: "Grid \<Rightarrow> bool" where
  "grid_wf g \<longleftrightarrow>
     int (length (cells g)) = max 0 (width g) \<and>
     (\<forall>col \<in> set (cells g). int (length col) = max 0 (height g))"

definition cell_at :: "Grid \<Rightarrow> int \<Rightarrow> int \<Rightarrow> Cell" where
  "cell_at g x y = cells g ! nat x ! nat y"

subsection \<open>\<^verbatim>\<open>Grid.is_valid_move\<close> and \<^verbatim>\<open>Grid.get_neighbors\<close>\<close>

definition is_valid_move :: "Grid \<Rightarrow> pos \<Rightarrow> bool" where
  "is_valid_move g p =
     (case p of (x, y) \<Rightarrow>
        if x < 0 \<or> x \<ge> width g \<or> y < 0 \<or> y \<ge> height g then False
        else if is_obstacle (cell_at g x y) then False
        else True)"

definition directions :: "(int \<times> int) list" where
  "directions = [(0, -1), (1, 0), (0, 1), (-1, 0)]"

definition get_neighbors :: "Grid \<Rightarrow> pos \<Rightarrow> pos list" where
  "get_neighbors g p =
     (case p of (x, y) \<Rightarrow>
        filter (is_valid_move g) (map (\<lambda>(dx, dy). (x + dx, y + dy)) directions))"

subsection \<open>Properties of \<^verbatim>\<open>get_neighbors\<close>\<close>

lemma get_neighbors_unfold:
  "get_neighbors g (x, y) =
     filter (is_valid_move g) [(x, y - 1), (x + 1, y), (x, y + 1), (x - 1, y)]"
  by (simp add: get_neighbors_def directions_def)

text \<open>
  C5. \<^verbatim>\<open>get_neighbors(pos)\<close> is the list up, right, down, left of the four cardinally
  adjacent coordinates, with exactly those dropped that are out of bounds or obstacles;
  nothing else (no diagonal, no out-of-bounds, no obstacle coordinate) is ever returned.
\<close>

theorem get_neighbors_exact:
  "get_neighbors g (x, y) =
     filter (\<lambda>(a, b). 0 \<le> a \<and> a < width g \<and> 0 \<le> b \<and> b < height g
                      \<and> \<not> is_obstacle (cells g ! nat a ! nat b))
       [(x, y - 1), (x + 1, y), (x, y + 1), (x - 1, y)]"
proof -
  have "is_valid_move g = (\<lambda>(a, b). 0 \<le> a \<and> a < width g \<and> 0 \<le> b \<and> b < height g
                      \<and> \<not> is_obstacle (cells g ! nat a ! nat b))"
    by (auto simp: is_valid_move_def cell_at_def fun_eq_iff)
  then show ?thesis
    by (simp only: get_neighbors_unfold)
qed

subsection \<open>\<^verbatim>\<open>Grid.is_path_exists\<close>: breadth-first search\<close>

text \<open>
  The \<^verbatim>\<open>for neighbor in self.get_neighbors(current)\<close> loop of the search: every neighbour
  not yet visited is added to \<^verbatim>\<open>visited\<close> and appended to \<^verbatim>\<open>queue\<close>.
\<close>

fun bfs_visit :: "pos list \<Rightarrow> pos set \<times> pos list \<Rightarrow> pos set \<times> pos list" where
  "bfs_visit [] (visited, queue) = (visited, queue)"
| "bfs_visit (neighbor # rest) (visited, queue) =
     (if neighbor \<notin> visited
      then bfs_visit rest (insert neighbor visited, queue @ [neighbor])
      else bfs_visit rest (visited, queue))"

definition valid_cells :: "Grid \<Rightarrow> pos set" where
  "valid_cells g = {p. is_valid_move g p}"

lemma valid_cells_finite: "finite (valid_cells g)"
proof -
  have "valid_cells g \<subseteq> {0..<width g} \<times> {0..<height g}"
    by (auto simp: valid_cells_def is_valid_move_def split: if_splits)
  then show ?thesis
    by (rule finite_subset) simp
qed

lemma get_neighbors_valid: "q \<in> set (get_neighbors g p) \<Longrightarrow> q \<in> valid_cells g"
  by (cases p) (auto simp: get_neighbors_def valid_cells_def)

lemma bfs_visit_measure:
  assumes "bfs_visit nbs (v, q) = (v', q')" and "set nbs \<subseteq> valid_cells g"
  shows "2 * card (valid_cells g - v') + length q' \<le> 2 * card (valid_cells g - v) + length q"
  using assms
proof (induction nbs arbitrary: v q)
  case Nil
  then show ?case by simp
next
  case (Cons n nbs)
  show ?case
  proof (cases "n \<in> v")
    case True
    with Cons show ?thesis by simp
  next
    case False
    with Cons.prems have step: "bfs_visit nbs (insert n v, q @ [n]) = (v', q')"
      by simp
    from Cons.prems have sub: "set nbs \<subseteq> valid_cells g" and nv: "n \<in> valid_cells g"
      by auto
    have fin: "finite (valid_cells g - v)"
      using valid_cells_finite by simp
    have mem: "n \<in> valid_cells g - v"
      using nv False by simp
    have "valid_cells g - insert n v = (valid_cells g - v) - {n}"
      by auto
    then have "card (valid_cells g - insert n v) = card (valid_cells g - v) - 1"
      using fin mem by simp
    moreover have "card (valid_cells g - v) \<ge> 1"
      using fin mem by (metis One_nat_def Suc_leI card_gt_0_iff empty_iff)
    ultimately have "2 * card (valid_cells g - insert n v) + length (q @ [n])
        \<le> 2 * card (valid_cells g - v) + length q"
      by simp
    with Cons.IH [OF step sub] show ?thesis
      by linarith
  qed
qed

function bfs_loop :: "Grid \<Rightarrow> pos \<Rightarrow> pos set \<Rightarrow> pos list \<Rightarrow> bool" where
  "bfs_loop g end visited queue =
     (if queue = [] then False
      else let current = hd queue; rest = tl queue in
        if current = end then True
        else bfs_loop g end
               (fst (bfs_visit (get_neighbors g current) (visited, rest)))
               (snd (bfs_visit (get_neighbors g current) (visited, rest))))"
  by pat_completeness auto
termination
proof (relation "measure (\<lambda>(g, e, v, q). 2 * card (valid_cells g - v) + length q)")
  show "wf (measure (\<lambda>(g, e, v, q). 2 * card (valid_cells g - v) + length q))"
    by simp
next
  fix g :: Grid and e :: pos and visited :: "pos set" and queue :: "pos list"
    and current rest
  assume ne: "queue \<noteq> []" and cur: "current = hd queue" and rest: "rest = tl queue"
  obtain v' q' where vq: "bfs_visit (get_neighbors g current) (visited, rest) = (v', q')"
    by (cases "bfs_visit (get_neighbors g current) (visited, rest)")
  have "set (get_neighbors g current) \<subseteq> valid_cells g"
    using get_neighbors_valid by blast
  from bfs_visit_measure [OF vq this]
  have "2 * card (valid_cells g - v') + length q' \<le> 2 * card (valid_cells g - visited) + length rest" .
  moreover have "length rest < length queue"
    using ne rest by simp
  ultimately show "((g, e, fst (bfs_visit (get_neighbors g current) (visited, rest)),
          snd (bfs_visit (get_neighbors g current) (visited, rest))), g, e, visited, queue)
        \<in> measure (\<lambda>(g, e, v, q). 2 * card (valid_cells g - v) + length q)"
    using vq by simp
qed

definition is_path_exists :: "Grid \<Rightarrow> pos \<Rightarrow> pos \<Rightarrow> bool" where
  "is_path_exists g start end =
     (if start = end then True else bfs_loop g end {start} [start])"

subsection \<open>\<^verbatim>\<open>Grid.find_path\<close>: the A* search\<close>

definition heuristic :: "pos \<Rightarrow> pos \<Rightarrow> int" where
  "heuristic a b = \<bar>fst a - fst b\<bar> + \<bar>snd a - snd b\<bar>"

text \<open>
  \<^verbatim>\<open>open_set\<close> is a Python list managed by the standard library's \<^verbatim>\<open>heapq\<close>; its entries
  are tuples \<^verbatim>\<open>(f_score, position)\<close>. Only the contract of \<^verbatim>\<open>heapq\<close> is modelled:
  \<^verbatim>\<open>heappush\<close> adds an entry and \<^verbatim>\<open>heappop\<close> removes and returns the least entry in Python's
  tuple order. That order is linear on these entries, so the entry popped does not depend on
  the layout of the heap array; the model keeps the entries in insertion order. The only other
  read of \<^verbatim>\<open>open_set\<close>, the membership test on its positions, does not depend on the layout
  either.
\<close>

type_synonym heap_entry = "int \<times> pos"

definition heappush :: "heap_entry list \<Rightarrow> heap_entry \<Rightarrow> heap_entry list" where
  "heappush heap item = heap @ [item]"

definition heap_least :: "heap_entry list \<Rightarrow> heap_entry" where
  "heap_least heap = fold min (tl heap) (hd heap)"

definition heappop :: "heap_entry list \<Rightarrow> heap_entry \<times> heap_entry list" where
  "heappop heap = (heap_least heap, remove1 (heap_least heap) heap)"

record astar =
  open_set :: "heap_entry list"
  closed_set :: "pos set"
  came_from :: "pos \<rightharpoonup> pos"
  g_score :: "pos \<rightharpoonup> int"
  f_score :: "pos \<rightharpoonup> int"

text \<open>
  The body of \<^verbatim>\<open>for neighbor in self.get_neighbors(current)\<close> for one neighbour. The read
  \<^verbatim>\<open>g_score[current]\<close> raises \<^verbatim>\<open>KeyError\<close> when the key is absent.
\<close>

definition relax :: "pos \<Rightarrow> pos \<Rightarrow> pos \<Rightarrow> astar \<Rightarrow> py_error + astar" where
  "relax end current neighbor st =
     (if neighbor \<in> closed_set st then Inr st
      else case g_score st current of
        None \<Rightarrow> Inl KeyError
      | Some gc \<Rightarrow>
          let tentative_g_score = gc + 1 in
          if (case g_score st neighbor of None \<Rightarrow> True | Some gn \<Rightarrow> tentative_g_score < gn)
          then
            let st1 = st\<lparr>came_from := (came_from st)(neighbor \<mapsto> current),
                         g_score := (g_score st)(neighbor \<mapsto> tentative_g_score),
                         f_score := (f_score st)(neighbor \<mapsto>
                                       tentative_g_score + heuristic neighbor end)\<rparr>
            in if neighbor \<notin> set (map snd (open_set st1))
               then Inr (st1\<lparr>open_set := heappush (open_set st1)
                               (tentative_g_score + heuristic neighbor end, neighbor)\<rparr>)
               else Inr st1
          else Inr st)"

fun relax_all :: "pos \<Rightarrow> pos \<Rightarrow> pos list \<Rightarrow> astar \<Rightarrow> py_error + astar" where
  "relax_all end current [] st = Inr st"
| "relax_all end current (neighbor # rest) st =
     (case relax end current neighbor st of
        Inl e \<Rightarrow> Inl e
      | Inr st' \<Rightarrow> relax_all end current rest st')"

text \<open>
  Path reconstruction, \<^verbatim>\<open>while current in came_from\<close>. On a \<^verbatim>\<open>came_from\<close> with a cycle the
  Python loop does not return; \<open>None\<close> is that outcome.
\<close>

partial_function (option) reconstruct :: "(pos \<rightharpoonup> pos) \<Rightarrow> pos \<Rightarrow> pos list \<Rightarrow> pos list option" where
  "reconstruct cf current path =
     (case cf current of
        None \<Rightarrow> Some (rev path)
      | Some previous \<Rightarrow> reconstruct cf previous (path @ [current]))"

text \<open>One pass of \<^verbatim>\<open>while open_set\<close> after the pop, up to the end of the \<^verbatim>\<open>for\<close> loop.\<close>

definition expand :: "Grid \<Rightarrow> pos \<Rightarrow> astar \<Rightarrow> py_error + astar" where
  "expand g end st =
     (let popped = heappop (open_set st); current = snd (fst popped) in
      relax_all end current (get_neighbors g current)
        (st\<lparr>open_set := snd popped, closed_set := insert current (closed_set st)\<rparr>))"

text \<open>
  Termination of the search: every pass pops one entry, and every push takes a position
  out of the finite set of valid cells that are neither closed nor in the open set.
\<close>

definition undiscovered :: "Grid \<Rightarrow> astar \<Rightarrow> pos set" where
  "undiscovered g st = valid_cells g - closed_set st - snd ` set (open_set st)"

definition astar_measure :: "Grid \<Rightarrow> astar \<Rightarrow> nat" where
  "astar_measure g st = length (open_set st) + 2 * card (undiscovered g st)"

lemma heap_least_fold_mem: "fold min xs (x::heap_entry) \<in> set (x # xs)"
proof (induction xs arbitrary: x)
  case Nil
  then show ?case by simp
next
  case (Cons y ys)
  have "fold min ys (min y x) \<in> set (min y x # ys)"
    by (rule Cons.IH)
  moreover have "min y x = y \<or> min y x = x"
    by (simp add: min_def)
  ultimately show ?case
    by auto
qed

lemma heap_least_mem: "heap \<noteq> [] \<Longrightarrow> heap_least heap \<in> set heap"
  using heap_least_fold_mem [of "tl heap" "hd heap"]
  by (cases heap) (simp_all add: heap_least_def)

lemma relax_measure:
  assumes "relax e c n st = Inr st'" and "n \<in> valid_cells g"
  shows "astar_measure g st' \<le> astar_measure g st"
proof (cases "n \<in> closed_set st \<or> n \<in> snd ` set (open_set st)")
  case True
  then have "open_set st' = open_set st" "closed_set st' = closed_set st"
    using assms(1) by (auto simp: relax_def Let_def split: if_splits option.splits)
  then show ?thesis
    by (simp add: astar_measure_def undiscovered_def)
next
  case False
  then have mem: "n \<in> undiscovered g st"
    using assms(2) by (simp add: undiscovered_def)
  have fin: "finite (undiscovered g st)"
    using valid_cells_finite by (simp add: undiscovered_def)
  have ge1: "card (undiscovered g st) \<ge> 1"
    using fin mem by (metis One_nat_def Suc_leI card_gt_0_iff empty_iff)
  from assms(1) False consider
      (same) "open_set st' = open_set st" "closed_set st' = closed_set st"
    | (push) f where "open_set st' = open_set st @ [(f, n)]" "closed_set st' = closed_set st"
    by (auto simp: relax_def Let_def heappush_def split: if_splits option.splits)
  then show ?thesis
  proof cases
    case same
    then show ?thesis
      by (simp add: astar_measure_def undiscovered_def)
  next
    case push
    then have "undiscovered g st' = undiscovered g st - {n}"
      by (auto simp: undiscovered_def)
    then have "card (undiscovered g st') = card (undiscovered g st) - 1"
      using fin mem by simp
    with ge1 push show ?thesis
      by (simp add: astar_measure_def)
  qed
qed

lemma relax_all_measure:
  assumes "relax_all e c ns st = Inr st'" and "set ns \<subseteq> valid_cells g"
  shows "astar_measure g st' \<le> astar_measure g st"
  using assms
proof (induction ns arbitrary: st)
  case Nil
  then show ?case by simp
next
  case (Cons n ns)
  from Cons.prems(1) obtain st1 where
    r: "relax e c n st = Inr st1" and rest: "relax_all e c ns st1 = Inr st'"
    by (auto split: sum.splits)
  from Cons.prems(2) have "n \<in> valid_cells g" and sub: "set ns \<subseteq> valid_cells g"
    by auto
  from relax_measure [OF r this(1)] Cons.IH [OF rest sub] show ?case
    by linarith
qed

lemma pop_measure:
  assumes "open_set st \<noteq> []"
  shows "astar_measure g (st\<lparr>open_set := snd (heappop (open_set st)),
            closed_set := insert (snd (fst (heappop (open_set st)))) (closed_set st)\<rparr>)
          < astar_measure g st"
proof -
  let ?m = "heap_least (open_set st)"
  let ?st0 = "st\<lparr>open_set := remove1 ?m (open_set st),
                  closed_set := insert (snd ?m) (closed_set st)\<rparr>"
  have mem: "?m \<in> set (open_set st)"
    using assms by (rule heap_least_mem)
  have len: "length (remove1 ?m (open_set st)) < length (open_set st)"
    using mem assms by (simp add: length_remove1)
  have "set (open_set st) \<subseteq> insert ?m (set (remove1 ?m (open_set st)))"
    by (metis insert_iff set_remove1_eq subsetI in_set_remove1)
  then have "undiscovered g ?st0 \<subseteq> undiscovered g st"
    by (auto simp: undiscovered_def)
  moreover have "finite (undiscovered g st)"
    using valid_cells_finite by (simp add: undiscovered_def)
  ultimately have "card (undiscovered g ?st0) \<le> card (undiscovered g st)"
    by (rule card_mono [rotated])
  with len show ?thesis
    by (simp add: astar_measure_def heappop_def)
qed

lemma expand_measure:
  assumes "open_set st \<noteq> []" and "expand g e st = Inr st'"
  shows "astar_measure g st' < astar_measure g st"
proof -
  have "set (get_neighbors g (snd (fst (heappop (open_set st))))) \<subseteq> valid_cells g"
    using get_neighbors_valid by blast
  from relax_all_measure [OF assms(2) [unfolded expand_def Let_def] this]
    pop_measure [OF assms(1), of g]
  show ?thesis
    by linarith
qed

function find_path_loop :: "Grid \<Rightarrow> pos \<Rightarrow> astar \<Rightarrow> (py_error + pos list) option" where
  "find_path_loop g end st =
     (if open_set st = [] then Some (Inr [])
      else if snd (fst (heappop (open_set st))) = end
        then map_option Inr (reconstruct (came_from st) end [])
      else case expand g end st of
        Inl e \<Rightarrow> Some (Inl e)
      | Inr st' \<Rightarrow> find_path_loop g end st')"
  by pat_completeness auto
termination
  by (relation "measure (\<lambda>(g, e, st). astar_measure g st)") (auto intro: expand_measure)

text \<open>The state of the search when \<^verbatim>\<open>while open_set\<close> is first reached.\<close>

definition astar_init :: "pos \<Rightarrow> pos \<Rightarrow> astar" where
  "astar_init start end =
     \<lparr>open_set = heappush [] (0, start), closed_set = {}, came_from = Map.empty,
      g_score = [start \<mapsto> 0], f_score = [start \<mapsto> heuristic start end]\<rparr>"

definition find_path :: "Grid \<Rightarrow> pos \<Rightarrow> pos \<Rightarrow> (py_error + pos list) option" where
  "find_path g start end =
     (if start = end then Some (Inr [start])
      else find_path_loop g end (astar_init start end))"

subsection \<open>\<^verbatim>\<open>Grid.__init__\<close> and \<^verbatim>\<open>Grid.generate_grid\<close>\<close>

text \<open>
  Python list subscripts: a negative index counts from the end, and an index outside the
  list raises \<^verbatim>\<open>IndexError\<close>.
\<close>

definition py_norm :: "'a list \<Rightarrow> int \<Rightarrow> int" where
  "py_norm xs i = (if i < 0 then i + int (length xs) else i)"

definition py_index :: "'a list \<Rightarrow> int \<Rightarrow> py_error + 'a" where
  "py_index xs i =
     (if 0 \<le> py_norm xs i \<and> py_norm xs i < int (length xs)
      then Inr (xs ! nat (py_norm xs i)) else Inl IndexError)"

text \<open>
  \<^verbatim>\<open>self.cells[x][y].attr = v\<close>: the cell object is read through two subscripts and one of
  its attributes is assigned; \<open>upd\<close> is that assignment.
\<close>

definition update_cell :: "Grid \<Rightarrow> int \<Rightarrow> int \<Rightarrow> (Cell \<Rightarrow> Cell) \<Rightarrow> py_error + Grid" where
  "update_cell g x y upd =
     (case py_index (cells g) x of
        Inl e \<Rightarrow> Inl e
      | Inr col \<Rightarrow>
          (case py_index col y of
             Inl e \<Rightarrow> Inl e
           | Inr c \<Rightarrow>
               Inr (g\<lparr>cells := (cells g)[nat (py_norm (cells g) x) :=
                                   col[nat (py_norm col y) := upd c]]\<rparr>)))"

definition read_cell :: "Grid \<Rightarrow> int \<Rightarrow> int \<Rightarrow> py_error + Cell" where
  "read_cell g x y =
     (case py_index (cells g) x of
        Inl e \<Rightarrow> Inl e
      | Inr col \<Rightarrow> py_index col y)"

text \<open>
  \<^verbatim>\<open>random.randint(a, b)\<close> returns some integer of \<open>[a, b]\<close>. The generator is modelled by
  the raw draws it is fed: draw \<open>r\<close> selects \<open>a + r mod (b - a + 1)\<close>, so every value of the
  range, and no other, can come out.
\<close>

definition randint :: "int \<Rightarrow> int \<Rightarrow> nat \<Rightarrow> int" where
  "randint a b r = a + int r mod (b - a + 1)"

text \<open>
  The placement loop \<^verbatim>\<open>while obstacles_placed < num_obstacles\<close>. It has no bound in the
  source; the model consumes one pair of draws per pass and yields \<open>None\<close> when the loop
  is still running after the last pair.
\<close>

fun place_obstacles ::
    "(nat \<times> nat) list \<Rightarrow> int \<Rightarrow> int \<Rightarrow> Grid \<Rightarrow> (py_error + Grid) option" where
  "place_obstacles rs num_obstacles obstacles_placed g =
     (if \<not> obstacles_placed < num_obstacles then Some (Inr g)
      else case rs of
        [] \<Rightarrow> None
      | r # rs' \<Rightarrow>
          let x = randint 0 (width g - 1) (fst r); y = randint 0 (height g - 1) (snd r) in
          if (x, y) = (0, 0) \<or> (x, y) = (width g - 1, 0)
             \<or> (x, y) = player_pos g \<or> (x, y) = ai_pos g
          then place_obstacles rs' num_obstacles obstacles_placed g
          else case read_cell g x y of
            Inl e \<Rightarrow> Some (Inl e)
          | Inr c \<Rightarrow>
              if is_obstacle c then place_obstacles rs' num_obstacles obstacles_placed g
              else case update_cell g x y (\<lambda>c. c\<lparr>is_obstacle := True\<rparr>) of
                Inl e \<Rightarrow> Some (Inl e)
              | Inr g1 \<Rightarrow>
                  if \<not> is_path_exists g1 (player_pos g1) (goal_pos g1)
                  then (case update_cell g1 x y (\<lambda>c. c\<lparr>is_obstacle := False\<rparr>) of
                          Inl e \<Rightarrow> Some (Inl e)
                        | Inr g2 \<Rightarrow> place_obstacles rs' num_obstacles obstacles_placed g2)
                  else place_obstacles rs' num_obstacles (obstacles_placed + 1) g1)"

text \<open>
  Python floats. A \<^verbatim>\<open>float\<close> is an IEEE 754 double: 53 significant bits and a binary
  exponent, every literal and every operation rounded to the nearest double, ties going to
  the even significand. A float is modelled by the rational number it denotes. The only
  floats of \<^verbatim>\<open>generate_grid\<close> are the three literals of its table, a cell count converted from
  \<^verbatim>\<open>int\<close> and their product, so subnormal numbers, infinities and NaN do not arise and
  are not modelled; the conversion of an \<^verbatim>\<open>int\<close> whose nearest double would be \<open>2 ^ 1024\<close>
  or more raises \<^verbatim>\<open>OverflowError\<close>.
\<close>

function bit_length :: "int \<Rightarrow> int" where
  "bit_length n = (if n \<le> 0 then 0 else 1 + bit_length (n div 2))"
  by pat_completeness auto
termination
  by (relation "measure nat") auto

function pow2 :: "int \<Rightarrow> rat" where
  "pow2 e = (if e = 0 then 1 else if 0 < e then 2 * pow2 (e - 1) else pow2 (e + 1) / 2)"
  by pat_completeness auto
termination
  by (relation "measure (\<lambda>e. nat \<bar>e\<bar>)") auto

text \<open>For \<open>x > 0\<close>, the exponent \<open>e\<close> with \<open>2 ^ e \<le> x < 2 ^ (e + 1)\<close>.\<close>

definition binary_exponent :: "rat \<Rightarrow> int" where
  "binary_exponent x =
     (let k = bit_length (fst (quotient_of x)) - bit_length (snd (quotient_of x))
      in if pow2 k \<le> x then k else k - 1)"

definition round_half_even :: "rat \<Rightarrow> int" where
  "round_half_even x =
     (let n = \<lfloor>x\<rfloor>; r = x - of_int n in
      if r < 1 / 2 then n else if 1 / 2 < r then n + 1 else if even n then n else n + 1)"

text \<open>The double nearest to a rational: its significand has 53 bits.\<close>

definition round_double :: "rat \<Rightarrow> rat" where
  "round_double x =
     (if x = 0 then 0
      else let ulp = pow2 (binary_exponent \<bar>x\<bar> - 52)
           in sgn x * of_int (round_half_even (\<bar>x\<bar> / ulp)) * ulp)"

text \<open>The conversion \<^verbatim>\<open>int\<close> to \<^verbatim>\<open>float\<close> that \<^verbatim>\<open>int * float\<close> applies to its left operand.\<close>

definition float_of_int :: "int \<Rightarrow> py_error + rat" where
  "float_of_int n =
     (let x = round_double (of_int n) in
      if x \<noteq> 0 \<and> 1024 \<le> binary_exponent \<bar>x\<bar> then Inl OverflowError else Inr x)"

text \<open>\<^verbatim>\<open>int(x)\<close> on a float truncates towards zero.\<close>

definition py_int :: "rat \<Rightarrow> int" where
  "py_int x = (if 0 \<le> x then \<lfloor>x\<rfloor> else \<lceil>x\<rceil>)"

text \<open>
  The table \<^verbatim>\<open>obstacle_percentage\<close> of \<^verbatim>\<open>generate_grid\<close>; each literal denotes the double
  nearest to it.
\<close>

fun obstacle_percentage :: "Difficulty \<Rightarrow> rat" where
  "obstacle_percentage EASY = round_double (15 / 100)"
| "obstacle_percentage MEDIUM = round_double (25 / 100)"
| "obstacle_percentage HARD = round_double (35 / 100)"

text \<open>
  \<^verbatim>\<open>num_obstacles = int(self.width * self.height * obstacle_percentage[self.difficulty])\<close>:
  the product of the two integers is exact, it is converted to a float, multiplied by the
  table entry (a product of less than \<open>2 ^ 1024\<close>, every entry being below 1) and truncated.
\<close>

definition num_obstacles :: "Grid \<Rightarrow> py_error + int" where
  "num_obstacles g =
     (case float_of_int (width g * height g) of
        Inl e \<Rightarrow> Inl e
      | Inr cells_count \<Rightarrow>
          Inr (py_int (round_double (cells_count * obstacle_percentage (difficulty g)))))"

definition generate_grid :: "(nat \<times> nat) list \<Rightarrow> Grid \<Rightarrow> (py_error + Grid) option" where
  "generate_grid rs g =
     (case update_cell g 0 0 (\<lambda>c. c\<lparr>is_start := True\<rparr>) of
        Inl e \<Rightarrow> Some (Inl e)
      | Inr g1 \<Rightarrow>
          (case update_cell g1 (width g1 - 1) 0 (\<lambda>c. c\<lparr>is_goal := True\<rparr>) of
             Inl e \<Rightarrow> Some (Inl e)
           | Inr g2 \<Rightarrow>
               let g3 = g2\<lparr>player_pos := (0, height g2 - 1),
                           ai_pos := (width g2 - 1, height g2 - 1),
                           goal_pos := (width g2 - 1, 0)\<rparr>
               in case num_obstacles g3 of
                    Inl e \<Rightarrow> Some (Inl e)
                  | Inr n \<Rightarrow> place_obstacles rs n 0 g3))"

definition Grid_init ::
    "int \<Rightarrow> int \<Rightarrow> Difficulty \<Rightarrow> (nat \<times> nat) list \<Rightarrow> (py_error + Grid) option" where
  "Grid_init w h d rs =
     generate_grid rs
       \<lparr>width = w, height = h, difficulty = d,
        cells = map (\<lambda>x. map (\<lambda>y. new_Cell x y) [0..h - 1]) [0..w - 1],
        player_pos = (0, 0), ai_pos = (w - 1, h - 1), goal_pos = (w - 1, 0)\<rparr>"

subsection \<open>\<^verbatim>\<open>TowerTrek.move_ai\<close>\<close>

text \<open>The lines \<^verbatim>\<open>move_ai\<close> and \<^verbatim>\<open>game_over\<close> print, one constructor per message.\<close>

datatype move_kind = Via_pathfinding | Direct | Random

datatype message =
    Already_on_player
  | Game_over_caught
  | AI_moved pos move_kind
  | AI_caught move_kind
  | AI_could_not_move

record TowerTrek =
  state :: GameState
  game_difficulty :: Difficulty
  level :: int
  score :: int
  moves :: int
  grid :: Grid
  ai_won :: bool
  debug :: bool
  printed :: "message list"

definition print :: "message \<Rightarrow> TowerTrek \<Rightarrow> TowerTrek" where
  "print m s = s\<lparr>printed := printed s @ [m]\<rparr>"

definition game_over :: "TowerTrek \<Rightarrow> TowerTrek" where
  "game_over s = (print Game_over_caught s)\<lparr>ai_won := True, state := GAME_OVER\<rparr>"

definition set_ai_pos :: "pos \<Rightarrow> TowerTrek \<Rightarrow> TowerTrek" where
  "set_ai_pos p s = s\<lparr>grid := (grid s)\<lparr>ai_pos := p\<rparr>\<rparr>"

text \<open>\<^verbatim>\<open>random.choice(seq)\<close> on a non-empty list: draw \<open>r\<close> selects element \<open>r mod len(seq)\<close>.\<close>

definition random_choice :: "nat \<Rightarrow> 'a list \<Rightarrow> 'a" where
  "random_choice r xs = xs ! (r mod length xs)"

text \<open>
  The tail shared by the three branches that move: assign \<^verbatim>\<open>ai_pos\<close>, print the move, and
  call \<^verbatim>\<open>game_over\<close> when the new position is the player's.
\<close>

definition step_to :: "pos \<Rightarrow> move_kind \<Rightarrow> TowerTrek \<Rightarrow> TowerTrek" where
  "step_to p k s =
     (let s1 = print (AI_moved p k) (set_ai_pos p s) in
      if ai_pos (grid s1) = player_pos (grid s1)
      then game_over (print (AI_caught k) s1)
      else s1)"

definition possible_moves :: "Grid \<Rightarrow> pos list" where
  "possible_moves g =
     (case ai_pos g of (ai_x, ai_y) \<Rightarrow>
      case player_pos g of (player_x, player_y) \<Rightarrow>
        (if ai_x < player_x \<and> is_valid_move g (ai_x + 1, ai_y) then [(ai_x + 1, ai_y)]
         else if ai_x > player_x \<and> is_valid_move g (ai_x - 1, ai_y) then [(ai_x - 1, ai_y)]
         else [])
        @
        (if ai_y < player_y \<and> is_valid_move g (ai_x, ai_y + 1) then [(ai_x, ai_y + 1)]
         else if ai_y > player_y \<and> is_valid_move g (ai_x, ai_y - 1) then [(ai_x, ai_y - 1)]
         else []))"

definition move_ai :: "nat \<Rightarrow> TowerTrek \<Rightarrow> (py_error + TowerTrek) option" where
  "move_ai r s =
     (if ai_pos (grid s) = player_pos (grid s)
      then Some (Inr (game_over (print Already_on_player s)))
      else case find_path (grid s) (ai_pos (grid s)) (player_pos (grid s)) of
        None \<Rightarrow> None
      | Some (Inl e) \<Rightarrow> Some (Inl e)
      | Some (Inr path) \<Rightarrow>
          if path \<noteq> [] \<and> length path > 0
          then Some (Inr (step_to (hd path) Via_pathfinding s))
          else if possible_moves (grid s) \<noteq> []
          then Some (Inr (step_to (random_choice r (possible_moves (grid s))) Direct s))
          else if get_neighbors (grid s) (ai_pos (grid s)) \<noteq> []
          then Some (Inr (step_to (random_choice r (get_neighbors (grid s) (ai_pos (grid s))))
                            Random s))
          else Some (Inr (print AI_could_not_move s)))"

subsection \<open>Concrete grids\<close>

text \<open>
  The grid that \<^verbatim>\<open>Grid.__init__\<close> lays out for a width and a height, with the cells at the
  listed positions marked as obstacles; used to state properties at concrete inputs.
\<close>

definition grid_of :: "int \<Rightarrow> int \<Rightarrow> pos list \<Rightarrow> Grid" where
  "grid_of w h obstacles =
     \<lparr>width = w, height = h, difficulty = EASY,
      cells = map (\<lambda>x. map (\<lambda>y. (new_Cell x y)\<lparr>is_obstacle := (x, y) \<in> set obstacles\<rparr>)
                         [0..h - 1]) [0..w - 1],
      player_pos = (0, h - 1), ai_pos = (w - 1, h - 1), goal_pos = (w - 1, 0)\<rparr>"

definition game_on :: "Grid \<Rightarrow> TowerTrek" where
  "game_on g =
     \<lparr>state = PLAYING, game_difficulty = EASY, level = 1, score = 0, moves = 0,
      grid = g, ai_won = False, debug = True, printed = []\<rparr>"

subsection \<open>Walks on the grid\<close>

text \<open>
  One step of the 4-neighbour relation, and the walks it generates: \<open>is_walk g a ps\<close> says
  that \<open>ps\<close> lists, in order, the cells entered by a walk that starts at \<open>a\<close> (\<open>a\<close> itself is
  not listed).
\<close>

definition edges :: "Grid \<Rightarrow> (pos \<times> pos) set" where
  "edges g = {(p, q). q \<in> set (get_neighbors g p)}"

fun is_walk :: "Grid \<Rightarrow> pos \<Rightarrow> pos list \<Rightarrow> bool" where
  "is_walk g a [] = True"
| "is_walk g a (p # ps) = (p \<in> set (get_neighbors g a) \<and> is_walk g p ps)"

definition adjacent :: "pos \<Rightarrow> pos \<Rightarrow> bool" where
  "adjacent p q \<longleftrightarrow> \<bar>fst p - fst q\<bar> + \<bar>snd p - snd q\<bar> = 1"

subsection \<open>Correctness of the breadth-first search\<close>

lemma bfs_visit_fst: "fst (bfs_visit nbs (v, q)) = v \<union> set nbs"
  by (induction nbs arbitrary: v q) auto

lemma bfs_visit_snd: "set (snd (bfs_visit nbs (v, q))) = set q \<union> (set nbs - v)"
  by (induction nbs arbitrary: v q) auto

definition bfs_inv :: "Grid \<Rightarrow> pos \<Rightarrow> pos \<Rightarrow> pos set \<Rightarrow> pos list \<Rightarrow> bool" where
  "bfs_inv g a e visited queue \<longleftrightarrow>
     set queue \<subseteq> visited \<and> a \<in> visited \<and>
     (\<forall>p \<in> visited. (a, p) \<in> (edges g)\<^sup>*) \<and>
     (\<forall>p \<in> visited - set queue. \<forall>q \<in> set (get_neighbors g p). q \<in> visited) \<and>
     (e \<in> visited \<longrightarrow> e \<in> set queue)"

lemma bfs_inv_step:
  assumes inv: "bfs_inv g a e visited queue" and ne: "queue \<noteq> []" and neq: "hd queue \<noteq> e"
  shows "bfs_inv g a e (fst (bfs_visit (get_neighbors g (hd queue)) (visited, tl queue)))
           (snd (bfs_visit (get_neighbors g (hd queue)) (visited, tl queue)))"
proof -
  obtain c rest where q: "queue = c # rest"
    using ne by (cases queue) auto
  let ?N = "set (get_neighbors g c)"
  have cv: "c \<in> visited" using inv q by (simp add: bfs_inv_def)
  have creach: "(a, c) \<in> (edges g)\<^sup>*" using inv cv by (simp add: bfs_inv_def)
  have nreach: "\<And>n. n \<in> ?N \<Longrightarrow> (a, n) \<in> (edges g)\<^sup>*"
  proof -
    fix n assume "n \<in> ?N"
    then have "(c, n) \<in> edges g" by (simp add: edges_def)
    with creach show "(a, n) \<in> (edges g)\<^sup>*" by (rule rtrancl_into_rtrancl)
  qed
  have 1: "set rest \<union> (?N - visited) \<subseteq> visited \<union> ?N"
    using inv q by (auto simp: bfs_inv_def)
  have 2: "a \<in> visited \<union> ?N" using inv by (simp add: bfs_inv_def)
  have 3: "\<forall>p \<in> visited \<union> ?N. (a, p) \<in> (edges g)\<^sup>*"
    using inv nreach by (auto simp: bfs_inv_def)
  have 4: "\<forall>p \<in> (visited \<union> ?N) - (set rest \<union> (?N - visited)).
             \<forall>n \<in> set (get_neighbors g p). n \<in> visited \<union> ?N"
  proof (intro ballI)
    fix p n
    assume p: "p \<in> (visited \<union> ?N) - (set rest \<union> (?N - visited))"
      and n: "n \<in> set (get_neighbors g p)"
    from p have pv: "p \<in> visited" and pr: "p \<notin> set rest" by auto
    show "n \<in> visited \<union> ?N"
    proof (cases "p = c")
      case True
      with n show ?thesis by simp
    next
      case False
      with pv pr q have "p \<in> visited - set queue" by simp
      with inv n show ?thesis by (auto simp: bfs_inv_def)
    qed
  qed
  have 5: "e \<in> visited \<union> ?N \<longrightarrow> e \<in> set rest \<union> (?N - visited)"
    using inv q neq by (auto simp: bfs_inv_def)
  show ?thesis
    unfolding bfs_inv_def bfs_visit_fst bfs_visit_snd q list.sel
    using 1 2 3 4 5 by blast
qed

lemma closed_reach:
  assumes "(a, b) \<in> (edges g)\<^sup>*" and "a \<in> V"
    and "\<forall>p \<in> V. \<forall>q \<in> set (get_neighbors g p). q \<in> V"
  shows "b \<in> V"
  using assms(1)
proof (induction rule: rtrancl_induct)
  case base
  then show ?case by (rule assms(2))
next
  case (step y z)
  then show ?case using assms(3) by (auto simp: edges_def)
qed

lemma bfs_loop_correct:
  "bfs_inv g a e visited queue \<Longrightarrow> bfs_loop g e visited queue \<longleftrightarrow> (a, e) \<in> (edges g)\<^sup>*"
proof (induction g e visited queue rule: bfs_loop.induct)
  case (1 g e visited queue)
  show ?case
  proof (cases "queue = []")
    case True
    have "e \<notin> visited" using "1.prems" True by (auto simp: bfs_inv_def)
    moreover have "(a, e) \<in> (edges g)\<^sup>* \<Longrightarrow> e \<in> visited"
      by (rule closed_reach [where V = visited]) (use "1.prems" True in \<open>auto simp: bfs_inv_def\<close>)
    ultimately show ?thesis using True by (subst bfs_loop.simps) auto
  next
    case False
    show ?thesis
    proof (cases "hd queue = e")
      case True
      have "hd queue \<in> visited" using "1.prems" False by (cases queue) (auto simp: bfs_inv_def)
      then have "(a, e) \<in> (edges g)\<^sup>*" using "1.prems" True by (auto simp: bfs_inv_def)
      then show ?thesis using True False by (subst bfs_loop.simps) (simp add: Let_def)
    next
      case neq: False
      from bfs_inv_step [OF "1.prems" False neq]
      have "bfs_loop g e (fst (bfs_visit (get_neighbors g (hd queue)) (visited, tl queue)))
           (snd (bfs_visit (get_neighbors g (hd queue)) (visited, tl queue))) \<longleftrightarrow> (a, e) \<in> (edges g)\<^sup>*"
        using "1.IH" [OF False refl refl neq] by simp
      then show ?thesis using False neq by (subst bfs_loop.simps) (simp add: Let_def)
    qed
  qed
qed

lemma is_path_exists_iff: "is_path_exists g a e \<longleftrightarrow> (a, e) \<in> (edges g)\<^sup>*"
proof (cases "a = e")
  case True
  then show ?thesis by (simp add: is_path_exists_def)
next
  case False
  have "bfs_inv g a e {a} [a]" using False by (simp add: bfs_inv_def)
  from bfs_loop_correct [OF this] False show ?thesis by (simp add: is_path_exists_def)
qed

subsection \<open>Correctness of the A* search\<close>

text \<open>
  The loop invariant: the discovered positions are those in the open or the closed set;
  every discovered position but the start has a predecessor, which is closed, is a grid
  neighbour and has a score smaller by one; the end is not closed.
\<close>

definition astar_inv :: "Grid \<Rightarrow> pos \<Rightarrow> pos \<Rightarrow> astar \<Rightarrow> bool" where
  "astar_inv g a e st \<longleftrightarrow>
     dom (g_score st) = snd ` set (open_set st) \<union> closed_set st \<and>
     dom (came_from st) = dom (g_score st) - {a} \<and>
     g_score st a = Some 0 \<and>
     (\<forall>p v. g_score st p = Some v \<longrightarrow> 0 \<le> v) \<and>
     (\<forall>n p. came_from st n = Some p \<longrightarrow>
        p \<in> closed_set st \<and> n \<in> set (get_neighbors g p) \<and>
        (\<exists>v. g_score st p = Some v \<and> g_score st n = Some (v + 1))) \<and>
     e \<notin> closed_set st"

definition nbrs_known :: "Grid \<Rightarrow> astar \<Rightarrow> pos set \<Rightarrow> bool" where
  "nbrs_known g st P \<longleftrightarrow> (\<forall>p \<in> P. set (get_neighbors g p) \<subseteq> dom (g_score st))"

lemma astar_inv_dom: "astar_inv g a e st \<Longrightarrow> dom (g_score st) = snd ` set (open_set st) \<union> closed_set st"
  unfolding astar_inv_def by (elim conjE)

lemma astar_inv_cf_dom: "astar_inv g a e st \<Longrightarrow> dom (came_from st) = dom (g_score st) - {a}"
  unfolding astar_inv_def by (elim conjE)

lemma astar_inv_start: "astar_inv g a e st \<Longrightarrow> g_score st a = Some 0"
  unfolding astar_inv_def by (elim conjE)

lemma astar_inv_nonneg: "astar_inv g a e st \<Longrightarrow> g_score st p = Some v \<Longrightarrow> 0 \<le> v"
  unfolding astar_inv_def by (elim conjE) blast

lemma astar_inv_cf:
  "astar_inv g a e st \<Longrightarrow> came_from st n = Some p \<Longrightarrow>
     p \<in> closed_set st \<and> n \<in> set (get_neighbors g p) \<and>
     (\<exists>v. g_score st p = Some v \<and> g_score st n = Some (v + 1))"
  unfolding astar_inv_def by (elim conjE) blast

lemma astar_inv_end: "astar_inv g a e st \<Longrightarrow> e \<notin> closed_set st"
  unfolding astar_inv_def by (elim conjE)

lemma astar_inv_closed_dom: "astar_inv g a e st \<Longrightarrow> p \<in> closed_set st \<Longrightarrow> p \<in> dom (g_score st)"
  using astar_inv_dom by blast

lemma astar_invI:
  assumes "dom (g_score st) = snd ` set (open_set st) \<union> closed_set st"
    and "dom (came_from st) = dom (g_score st) - {a}"
    and "g_score st a = Some 0"
    and "\<And>p v. g_score st p = Some v \<Longrightarrow> 0 \<le> v"
    and "\<And>n p. came_from st n = Some p \<Longrightarrow>
        p \<in> closed_set st \<and> n \<in> set (get_neighbors g p) \<and>
        (\<exists>v. g_score st p = Some v \<and> g_score st n = Some (v + 1))"
    and "e \<notin> closed_set st"
  shows "astar_inv g a e st"
  unfolding astar_inv_def using assms by blast

lemma astar_inv_init: "a \<noteq> e \<Longrightarrow> astar_inv g a e (astar_init a e)"
  by (auto simp: astar_inv_def astar_init_def heappush_def)

lemma relax_cases [consumes 1, case_names skip upd]:
  assumes "g_score st c = Some gc"
  obtains (skip) "relax e c n st = Inr st"
      "n \<in> closed_set st \<or> (\<exists>gn. g_score st n = Some gn)"
  | (upd) st' where "relax e c n st = Inr st'" "n \<notin> closed_set st"
      "g_score st n = None \<or> (\<exists>gn. g_score st n = Some gn \<and> gc + 1 < gn)"
      "came_from st' = (came_from st)(n \<mapsto> c)"
      "g_score st' = (g_score st)(n \<mapsto> gc + 1)"
      "closed_set st' = closed_set st"
      "snd ` set (open_set st') = insert n (snd ` set (open_set st))"
proof (cases "n \<in> closed_set st \<or> (\<exists>gn. g_score st n = Some gn \<and> \<not> gc + 1 < gn)")
  case True
  then have "relax e c n st = Inr st"
    using assms by (auto simp: relax_def Let_def)
  moreover have "n \<in> closed_set st \<or> (\<exists>gn. g_score st n = Some gn)"
    using True by blast
  ultimately show ?thesis by (rule skip)
next
  case False
  then have nc: "n \<notin> closed_set st"
    and better: "g_score st n = None \<or> (\<exists>gn. g_score st n = Some gn \<and> gc + 1 < gn)"
    by (cases "g_score st n"; auto)+
  let ?st1 = "st\<lparr>came_from := (came_from st)(n \<mapsto> c),
                 g_score := (g_score st)(n \<mapsto> gc + 1),
                 f_score := (f_score st)(n \<mapsto> gc + 1 + heuristic n e)\<rparr>"
  let ?st' = "if n \<notin> snd ` set (open_set st)
              then ?st1\<lparr>open_set := heappush (open_set st) (gc + 1 + heuristic n e, n)\<rparr>
              else ?st1"
  have r: "relax e c n st = Inr ?st'"
    using assms nc better by (auto simp: relax_def Let_def)
  show ?thesis
  proof (rule upd [OF r nc better])
    show "came_from ?st' = (came_from st)(n \<mapsto> c)" by simp
    show "g_score ?st' = (g_score st)(n \<mapsto> gc + 1)" by simp
    show "closed_set ?st' = closed_set st" by simp
    show "snd ` set (open_set ?st') = insert n (snd ` set (open_set st))"
      by (auto simp: heappush_def)
  qed
qed

lemma relax_inv:
  assumes inv: "astar_inv g a e st" and c: "c \<in> closed_set st"
    and n: "n \<in> set (get_neighbors g c)"
  shows "\<exists>st'. relax e c n st = Inr st' \<and> astar_inv g a e st' \<and>
           closed_set st' = closed_set st \<and> dom (g_score st) \<subseteq> dom (g_score st') \<and>
           n \<in> dom (g_score st')"
proof -
  from astar_inv_closed_dom [OF inv c] obtain gc where gc: "g_score st c = Some gc" by auto
  have gc0: "0 \<le> gc" using astar_inv_nonneg [OF inv gc] .
  from gc show ?thesis
  proof (cases rule: relax_cases [where e = e and n = n])
    case skip
    from skip(2) have "n \<in> dom (g_score st)"
    proof (elim disjE exE)
      assume "n \<in> closed_set st"
      then show ?thesis by (rule astar_inv_closed_dom [OF inv])
    next
      fix gn assume "g_score st n = Some gn"
      then show ?thesis by (rule domI)
    qed
    with skip(1) inv show ?thesis by auto
  next
    case (upd st')
    have na: "n \<noteq> a"
    proof
      assume "n = a"
      with astar_inv_start [OF inv] have "g_score st n = Some 0" by simp
      with upd(3) gc0 show False by auto
    qed
    have nc: "n \<noteq> c" using upd(2) c by auto
    have d: "dom (g_score st') = insert n (dom (g_score st))"
      using upd(5) by simp
    have "astar_inv g a e st'"
    proof (rule astar_invI)
      show "dom (g_score st') = snd ` set (open_set st') \<union> closed_set st'"
        unfolding d upd(6) upd(7) astar_inv_dom [OF inv] by simp
      show "dom (came_from st') = dom (g_score st') - {a}"
        unfolding d upd(4) using astar_inv_cf_dom [OF inv] na by auto
      show "g_score st' a = Some 0"
        unfolding upd(5) using astar_inv_start [OF inv] na by simp
      show "0 \<le> v" if "g_score st' p = Some v" for p v
      proof (cases "p = n")
        case True
        with that upd(5) have "v = gc + 1" by simp
        with gc0 show ?thesis by simp
      next
        case False
        with that upd(5) have "g_score st p = Some v" by simp
        then show ?thesis by (rule astar_inv_nonneg [OF inv])
      qed
      show "p \<in> closed_set st' \<and> m \<in> set (get_neighbors g p) \<and>
        (\<exists>v. g_score st' p = Some v \<and> g_score st' m = Some (v + 1))"
        if cf: "came_from st' m = Some p" for m p
      proof (cases "m = n")
        case True
        with cf upd(4) have "p = c" by simp
        with True upd(5,6) c n gc nc show ?thesis by simp
      next
        case False
        with cf upd(4) have old: "came_from st m = Some p" by simp
        from astar_inv_cf [OF inv old]
        have pc: "p \<in> closed_set st" and mn: "m \<in> set (get_neighbors g p)"
          and ex: "\<exists>v. g_score st p = Some v \<and> g_score st m = Some (v + 1)"
          by blast+
        from pc upd(2) have "p \<noteq> n" by auto
        with False pc mn ex upd(5,6) show ?thesis by simp
      qed
      show "e \<notin> closed_set st'" unfolding upd(6) by (rule astar_inv_end [OF inv])
    qed
    with upd(1,6) d show ?thesis by auto
  qed
qed

lemma relax_all_inv:
  assumes "astar_inv g a e st" and "c \<in> closed_set st"
    and "set ns \<subseteq> set (get_neighbors g c)"
  shows "\<exists>st'. relax_all e c ns st = Inr st' \<and> astar_inv g a e st' \<and>
           closed_set st' = closed_set st \<and> dom (g_score st) \<subseteq> dom (g_score st') \<and>
           set ns \<subseteq> dom (g_score st')"
  using assms
proof (induction ns arbitrary: st)
  case Nil
  then show ?case by simp
next
  case (Cons n ns)
  from Cons.prems have n: "n \<in> set (get_neighbors g c)" and ns: "set ns \<subseteq> set (get_neighbors g c)"
    by auto
  from relax_inv [OF Cons.prems(1,2) n] obtain st1 where
    r: "relax e c n st = Inr st1" and i1: "astar_inv g a e st1"
    and c1: "closed_set st1 = closed_set st" and d1: "dom (g_score st) \<subseteq> dom (g_score st1)"
    and n1: "n \<in> dom (g_score st1)" by blast
  from Cons.prems(2) c1 have cc: "c \<in> closed_set st1" by simp
  from Cons.IH [OF i1 cc ns] obtain st' where
    ra: "relax_all e c ns st1 = Inr st'" and i': "astar_inv g a e st'"
    and c': "closed_set st' = closed_set st1" and d': "dom (g_score st1) \<subseteq> dom (g_score st')"
    and n': "set ns \<subseteq> dom (g_score st')" by blast
  have 1: "relax_all e c (n # ns) st = Inr st'" using r ra by simp
  have 2: "closed_set st' = closed_set st" using c' c1 by simp
  have 3: "dom (g_score st) \<subseteq> dom (g_score st')" using d1 d' by (rule subset_trans)
  have 4: "set (n # ns) \<subseteq> dom (g_score st')" using n1 d' n' by auto
  from 1 i' 2 3 4 show ?case by blast
qed

lemma pop_inv:
  assumes inv: "astar_inv g a e st" and ne: "open_set st \<noteq> []"
    and neq: "snd (heap_least (open_set st)) \<noteq> e"
  shows "astar_inv g a e (st\<lparr>open_set := remove1 (heap_least (open_set st)) (open_set st),
            closed_set := insert (snd (heap_least (open_set st))) (closed_set st)\<rparr>)"
    (is "astar_inv g a e ?st0")
proof -
  let ?m = "heap_least (open_set st)"
  have mem: "?m \<in> set (open_set st)" using ne by (rule heap_least_mem)
  have sub1: "set (remove1 ?m (open_set st)) \<subseteq> set (open_set st)"
    by (rule set_remove1_subset)
  have sub2: "set (open_set st) \<subseteq> insert ?m (set (remove1 ?m (open_set st)))"
  proof
    fix x assume "x \<in> set (open_set st)"
    then show "x \<in> insert ?m (set (remove1 ?m (open_set st)))"
      by (cases "x = ?m") (simp_all add: in_set_remove1)
  qed
  have pos: "snd ` set (open_set st) \<union> closed_set st
      = snd ` set (remove1 ?m (open_set st)) \<union> insert (snd ?m) (closed_set st)"
    using mem sub1 sub2 by (auto 4 3 simp: image_iff)
  show ?thesis
  proof (rule astar_invI)
    show "dom (g_score ?st0) = snd ` set (open_set ?st0) \<union> closed_set ?st0"
      using astar_inv_dom [OF inv] pos by simp
    show "dom (came_from ?st0) = dom (g_score ?st0) - {a}"
      using astar_inv_cf_dom [OF inv] by simp
    show "g_score ?st0 a = Some 0" using astar_inv_start [OF inv] by simp
    show "0 \<le> v" if "g_score ?st0 p = Some v" for p v
      using that astar_inv_nonneg [OF inv] by simp
    show "p \<in> closed_set ?st0 \<and> n \<in> set (get_neighbors g p) \<and>
        (\<exists>v. g_score ?st0 p = Some v \<and> g_score ?st0 n = Some (v + 1))"
      if "came_from ?st0 n = Some p" for n p
      using astar_inv_cf [OF inv, of n p] that by simp
    show "e \<notin> closed_set ?st0" using astar_inv_end [OF inv] neq by simp
  qed
qed


lemma expand_inv:
  assumes inv: "astar_inv g a e st" and known: "nbrs_known g st (closed_set st)"
    and ne: "open_set st \<noteq> []" and neq: "snd (fst (heappop (open_set st))) \<noteq> e"
  shows "\<exists>st'. expand g e st = Inr st' \<and> astar_inv g a e st' \<and>
           nbrs_known g st' (closed_set st')"
proof -
  let ?c = "snd (heap_least (open_set st))"
  let ?st0 = "st\<lparr>open_set := remove1 (heap_least (open_set st)) (open_set st),
                  closed_set := insert ?c (closed_set st)\<rparr>"
  from neq have neq': "?c \<noteq> e" by (simp add: heappop_def)
  have inv0: "astar_inv g a e ?st0" by (rule pop_inv [OF inv ne neq'])
  have c0: "?c \<in> closed_set ?st0" by simp
  from relax_all_inv [OF inv0 c0 subset_refl] obtain st' where
    ra: "relax_all e ?c (get_neighbors g ?c) ?st0 = Inr st'" and inv': "astar_inv g a e st'"
    and cl: "closed_set st' = closed_set ?st0"
    and mono: "dom (g_score ?st0) \<subseteq> dom (g_score st')"
    and nb: "set (get_neighbors g ?c) \<subseteq> dom (g_score st')" by blast
  have ex: "expand g e st = Inr st'"
    using ra by (simp add: expand_def heappop_def Let_def)
  have "nbrs_known g st' (closed_set st')"
    unfolding nbrs_known_def
  proof
    fix p assume "p \<in> closed_set st'"
    with cl have "p = ?c \<or> p \<in> closed_set st" by simp
    then show "set (get_neighbors g p) \<subseteq> dom (g_score st')"
    proof
      assume "p = ?c" with nb show ?thesis by simp
    next
      assume "p \<in> closed_set st"
      with known have "set (get_neighbors g p) \<subseteq> dom (g_score st)"
        by (simp add: nbrs_known_def)
      with mono show ?thesis by auto
    qed
  qed
  with ex inv' show ?thesis by blast
qed

lemma is_walk_snoc:
  "is_walk g a (w @ [n]) \<longleftrightarrow> is_walk g a w \<and> n \<in> set (get_neighbors g (last (a # w)))"
  by (induction w arbitrary: a) auto

lemma walk_reach: "is_walk g a w \<Longrightarrow> (a, last (a # w)) \<in> (edges g)\<^sup>*"
proof (induction w arbitrary: a)
  case Nil
  then show ?case by simp
next
  case (Cons p w)
  then have "(a, p) \<in> edges g" and "(p, last (p # w)) \<in> (edges g)\<^sup>*"
    by (simp_all add: edges_def)
  then show ?case by (simp add: converse_rtrancl_into_rtrancl)
qed

lemma reconstruct_walk:
  assumes inv: "astar_inv g a e st"
  shows "g_score st n = Some (int k) \<Longrightarrow>
     \<exists>w. reconstruct (came_from st) n acc = Some (w @ rev acc) \<and> length w = k \<and>
         is_walk g a w \<and> last (a # w) = n"
proof (induction k arbitrary: n acc)
  case 0
  show ?case
  proof (cases "came_from st n")
    case None
    from "0.prems" have "n \<in> dom (g_score st)" by (rule domI)
    with None astar_inv_cf_dom [OF inv] have "n = a" by auto
    moreover have "reconstruct (came_from st) n acc = Some (rev acc)"
      using None by (subst reconstruct.simps) simp
    ultimately show ?thesis by simp
  next
    case (Some p)
    from astar_inv_cf [OF inv Some] obtain v where
      "g_score st p = Some v" "g_score st n = Some (v + 1)" by blast
    with "0.prems" astar_inv_nonneg [OF inv, of p v] have False by simp
    then show ?thesis ..
  qed
next
  case (Suc k)
  show ?case
  proof (cases "came_from st n")
    case None
    from Suc.prems have "n \<in> dom (g_score st)" by (rule domI)
    with None astar_inv_cf_dom [OF inv] have "n = a" by auto
    with Suc.prems astar_inv_start [OF inv] have False by simp
    then show ?thesis ..
  next
    case (Some p)
    from astar_inv_cf [OF inv Some] obtain v where
      v: "g_score st p = Some v" "g_score st n = Some (v + 1)"
      and nb: "n \<in> set (get_neighbors g p)" by blast
    with Suc.prems have "g_score st p = Some (int k)" by simp
    from Suc.IH [OF this, of "acc @ [n]"] obtain w where
      r: "reconstruct (came_from st) p (acc @ [n]) = Some (w @ rev (acc @ [n]))"
      and len: "length w = k" and walk: "is_walk g a w" and lst: "last (a # w) = p"
      by blast
    have "reconstruct (came_from st) n acc = Some ((w @ [n]) @ rev acc)"
      using Some r by (subst reconstruct.simps) simp
    moreover have "is_walk g a (w @ [n])"
      using walk nb lst by (simp only: is_walk_snoc)
    ultimately show ?thesis using len by auto
  qed
qed

lemma find_path_loop_correct:
  "a \<noteq> e \<Longrightarrow> astar_inv g a e st \<Longrightarrow> nbrs_known g st (closed_set st) \<Longrightarrow>
     \<exists>p. find_path_loop g e st = Some (Inr p) \<and> (p = [] \<longleftrightarrow> (a, e) \<notin> (edges g)\<^sup>*) \<and>
         is_walk g a p \<and> (p \<noteq> [] \<longrightarrow> last p = e)"
proof (induction g e st rule: find_path_loop.induct)
  case (1 g e st)
  note ae = "1.prems"(1) and inv = "1.prems"(2) and known = "1.prems"(3)
  show ?case
  proof (cases "open_set st = []")
    case True
    have dom: "dom (g_score st) = closed_set st"
      using astar_inv_dom [OF inv] True by simp
    have "a \<in> closed_set st"
      using astar_inv_start [OF inv] dom by auto
    moreover have "\<forall>p \<in> closed_set st. \<forall>q \<in> set (get_neighbors g p). q \<in> closed_set st"
      using known dom by (auto simp: nbrs_known_def)
    ultimately have "(a, e) \<in> (edges g)\<^sup>* \<Longrightarrow> e \<in> closed_set st"
      by (rule closed_reach [rotated])
    with astar_inv_end [OF inv] have "(a, e) \<notin> (edges g)\<^sup>*" by blast
    moreover have "find_path_loop g e st = Some (Inr [])"
      using True by (subst find_path_loop.simps) simp
    ultimately show ?thesis by simp
  next
    case False
    show ?thesis
    proof (cases "snd (fst (heappop (open_set st))) = e")
      case True
      have "heap_least (open_set st) \<in> set (open_set st)"
        using False by (rule heap_least_mem)
      then have "e \<in> snd ` set (open_set st)"
        using True by (auto simp: heappop_def)
      then have "e \<in> dom (g_score st)"
        using astar_inv_dom [OF inv] by simp
      then obtain v where v: "g_score st e = Some v" by auto
      from astar_inv_nonneg [OF inv v] have "g_score st e = Some (int (nat v))"
        using v by simp
      from reconstruct_walk [OF inv this, of "[]"] obtain w where
        r: "reconstruct (came_from st) e [] = Some w"
        and walk: "is_walk g a w" and lst: "last (a # w) = e" by auto
      from lst ae have wne: "w \<noteq> []" by auto
      with lst have "last w = e" by simp
      moreover from walk_reach [OF walk] lst have "(a, e) \<in> (edges g)\<^sup>*" by simp
      moreover have "find_path_loop g e st = Some (Inr w)"
        using False True r by (subst find_path_loop.simps) simp
      ultimately show ?thesis using wne walk by simp
    next
      case neq: False
      from expand_inv [OF inv known False neq] obtain st' where
        ex: "expand g e st = Inr st'" and inv': "astar_inv g a e st'"
        and known': "nbrs_known g st' (closed_set st')" by blast
      have "find_path_loop g e st = find_path_loop g e st'"
        using False neq ex by (subst find_path_loop.simps) simp
      with "1.IH" [OF False neq ex ae inv' known'] show ?thesis by simp
    qed
  qed
qed

lemma find_path_correct:
  assumes "a \<noteq> e"
  shows "\<exists>p. find_path g a e = Some (Inr p) \<and> (p = [] \<longleftrightarrow> (a, e) \<notin> (edges g)\<^sup>*) \<and>
         is_walk g a p \<and> (p \<noteq> [] \<longrightarrow> last p = e)"
proof -
  have "nbrs_known g (astar_init a e) (closed_set (astar_init a e))"
    by (simp add: nbrs_known_def astar_init_def)
  from find_path_loop_correct [OF assms astar_inv_init [OF assms] this]
  show ?thesis using assms by (simp add: find_path_def)
qed

subsection \<open>The contract of \<^verbatim>\<open>find_path\<close>\<close>

declare reconstruct.simps [code]

lemma neighbor_valid_adjacent:
  assumes "q \<in> set (get_neighbors g p)"
  shows "is_valid_move g q" and "adjacent p q"
proof -
  obtain x y where p: "p = (x, y)" by (cases p)
  from get_neighbors_valid [OF assms] show "is_valid_move g q"
    by (simp add: valid_cells_def)
  have "set (get_neighbors g p) \<subseteq> set [(x, y - 1), (x + 1, y), (x, y + 1), (x - 1, y)]"
    unfolding p get_neighbors_unfold by (rule filter_is_subset)
  with assms have "q \<in> set [(x, y - 1), (x + 1, y), (x, y + 1), (x - 1, y)]" by blast
  then show "adjacent p q"
    by (auto simp: p adjacent_def)
qed

lemma is_walk_nth:
  "is_walk g a p \<Longrightarrow> i < length p \<Longrightarrow> p ! i \<in> set (get_neighbors g ((a # p) ! i))"
proof (induction p arbitrary: a i)
  case Nil
  then show ?case by simp
next
  case (Cons q p)
  then show ?case by (cases i) auto
qed

lemma find_path_same: "find_path g a a = Some (Inr [a])"
  by (simp add: find_path_def)

text \<open>
  C3. \<^verbatim>\<open>find_path(start, end)\<close> always returns. For \<open>start = end\<close> the result is \<open>[start]\<close>.
  Otherwise, when \<^verbatim>\<open>is_path_exists(start, end)\<close> holds, the result is non-empty, its first
  element is one of \<^verbatim>\<open>get_neighbors(start)\<close>, its last element is \<open>end\<close>, and every element
  is a valid (in-bounds, non-obstacle) cell cardinally adjacent to the one before it (the
  first to \<open>start\<close>); and when no path exists the result is empty.
\<close>

theorem find_path_contract:
  "(start = end \<longrightarrow> find_path g start end = Some (Inr [start])) \<and>
   (start \<noteq> end \<longrightarrow>
      (\<exists>p. find_path g start end = Some (Inr p) \<and>
        (is_path_exists g start end \<longrightarrow>
           p \<noteq> [] \<and> hd p \<in> set (get_neighbors g start) \<and> last p = end \<and>
           (\<forall>i < length p. is_valid_move g (p ! i) \<and> adjacent ((start # p) ! i) (p ! i))) \<and>
        (\<not> is_path_exists g start end \<longrightarrow> p = [])))"
proof (intro conjI impI)
  assume "start = end"
  then show "find_path g start end = Some (Inr [start])" by (simp add: find_path_same)
next
  assume ne: "start \<noteq> end"
  from find_path_correct [OF ne, of g] obtain p where
    fp: "find_path g start end = Some (Inr p)"
    and iff: "p = [] \<longleftrightarrow> (start, end) \<notin> (edges g)\<^sup>*"
    and walk: "is_walk g start p" and lst: "p \<noteq> [] \<longrightarrow> last p = end" by blast
  have hd: "p \<noteq> [] \<Longrightarrow> hd p \<in> set (get_neighbors g start)"
    using walk by (cases p) auto
  have steps: "\<forall>i < length p. is_valid_move g (p ! i) \<and> adjacent ((start # p) ! i) (p ! i)"
    using is_walk_nth [OF walk] neighbor_valid_adjacent by blast
  show "\<exists>p. find_path g start end = Some (Inr p) \<and>
        (is_path_exists g start end \<longrightarrow>
           p \<noteq> [] \<and> hd p \<in> set (get_neighbors g start) \<and> last p = end \<and>
           (\<forall>i < length p. is_valid_move g (p ! i) \<and> adjacent ((start # p) ! i) (p ! i))) \<and>
        (\<not> is_path_exists g start end \<longrightarrow> p = [])"
    using fp iff hd lst steps unfolding is_path_exists_iff by blast
qed

theorem find_path_contract_witness:
  "find_path (grid_of 3 3 [(1, 0), (1, 1), (1, 2)]) (0, 0) (0, 0) = Some (Inr [(0, 0)]) \<and>
   ((0, 0) :: pos) \<noteq> (0, 2) \<and> is_path_exists (grid_of 3 3 [(1, 0), (1, 1), (1, 2)]) (0, 0) (0, 2) \<and>
   find_path (grid_of 3 3 [(1, 0), (1, 1), (1, 2)]) (0, 0) (0, 2) = Some (Inr [(0, 1), (0, 2)]) \<and>
   (0, 1) \<in> set (get_neighbors (grid_of 3 3 [(1, 0), (1, 1), (1, 2)]) (0, 0)) \<and>
   is_valid_move (grid_of 3 3 [(1, 0), (1, 1), (1, 2)]) (0, 1) \<and> adjacent (0, 0) (0, 1) \<and>
   is_valid_move (grid_of 3 3 [(1, 0), (1, 1), (1, 2)]) (0, 2) \<and> adjacent (0, 1) (0, 2) \<and>
   ((0, 0) :: pos) \<noteq> (2, 2) \<and> \<not> is_path_exists (grid_of 3 3 [(1, 0), (1, 1), (1, 2)]) (0, 0) (2, 2) \<and>
   find_path (grid_of 3 3 [(1, 0), (1, 1), (1, 2)]) (0, 0) (2, 2) = Some (Inr [])"
proof -
  let ?g = "(grid_of 3 3 [(1, 0), (1, 1), (1, 2)])"
  have same: "find_path ?g (0, 0) (0, 0) = Some (Inr [(0, 0)])"
    using find_path_contract [of "(0, 0)" "(0, 0)" ?g] by simp
  have ne1: "((0, 0) :: pos) \<noteq> (0, 2)" by simp
  have ex1: "is_path_exists ?g (0, 0) (0, 2)" by code_simp
  have fp1: "find_path ?g (0, 0) (0, 2) = Some (Inr [(0, 1), (0, 2)])" by code_simp
  from find_path_contract [of "(0, 0)" "(0, 2)" ?g] ne1 ex1 fp1
  have hd1: "hd [(0, 1), (0, 2) :: pos] \<in> set (get_neighbors ?g (0, 0))"
    and steps: "\<forall>i < length [(0, 1), (0, 2) :: pos].
       is_valid_move ?g ([(0, 1), (0, 2)] ! i) \<and>
       adjacent (((0, 0) # [(0, 1), (0, 2)]) ! i) ([(0, 1), (0, 2)] ! i)"
    by auto
  from steps have s0: "is_valid_move ?g (0, 1) \<and> adjacent (0, 0) (0, 1)"
    by (auto dest: spec [of _ 0])
  from steps have s1: "is_valid_move ?g (0, 2) \<and> adjacent (0, 1) (0, 2)"
    by (auto dest: spec [of _ 1])
  have ne2: "((0, 0) :: pos) \<noteq> (2, 2)" by simp
  have ex2: "\<not> is_path_exists ?g (0, 0) (2, 2)" by code_simp
  from find_path_contract [of "(0, 0)" "(2, 2)" ?g] ne2 ex2
  have fp2: "find_path ?g (0, 0) (2, 2) = Some (Inr [])" by auto
  from same ne1 ex1 fp1 hd1 s0 s1 ne2 ex2 fp2 show ?thesis by simp
qed

subsection \<open>Length of the path found\<close>

text \<open>
  The first half of the claim about the length holds: \<^verbatim>\<open>find_path(a, b)\<close> always returns,
  and its result is empty if and only if \<^verbatim>\<open>is_path_exists(a, b)\<close> is false. For \<open>a = b\<close>
  the result is \<open>[a]\<close>, which has one element although no step is needed.
\<close>

lemma find_path_empty_iff:
  "\<exists>p. find_path g a b = Some (Inr p) \<and>
       (p = [] \<longleftrightarrow> \<not> is_path_exists g a b) \<and>
       (a = b \<longrightarrow> p = [a])"
proof (cases "a = b")
  case True
  then show ?thesis by (simp add: find_path_same is_path_exists_def)
next
  case False
  from find_path_correct [OF False, of g] obtain p where
    "find_path g a b = Some (Inr p)" "p = [] \<longleftrightarrow> (a, b) \<notin> (edges g)\<^sup>*" by blast
  with False show ?thesis unfolding is_path_exists_iff by blast
qed

text \<open>
  The grid that \<^verbatim>\<open>Grid(5, 5, Difficulty.EASY)\<close> builds when the random draws are
  \<open>(0, 2)\<close>, \<open>(1, 4)\<close>, \<open>(3, 1)\<close>: \<^verbatim>\<open>num_obstacles\<close> is \<^verbatim>\<open>int(25 * 0.15)\<close>, that is 3, and each
  draw places an obstacle.
\<close>

definition detour_draws :: "(nat \<times> nat) list" where
  "detour_draws = [(0, 2), (1, 4), (3, 1)]"

definition detour_grid :: Grid where
  "detour_grid =
     \<lparr>width = 5, height = 5, difficulty = EASY,
      cells = map (\<lambda>x. map (\<lambda>y. \<lparr>cell_x = x, cell_y = y,
                 is_obstacle = (x, y) \<in> set [(0, 2), (1, 4), (3, 1)],
                 is_goal = ((x, y) = (4, 0)), is_start = ((x, y) = (0, 0))\<rparr>) [0..4]) [0..4],
      player_pos = (0, 4), ai_pos = (4, 4), goal_pos = (4, 0)\<rparr>"

text \<open>
  C2 does not hold of \<^verbatim>\<open>find_path\<close> where \<open>a \<noteq> b\<close>: the path found need not be a shortest
  one. A position already in \<^verbatim>\<open>open_set\<close> keeps the priority it was pushed with when a
  cheaper route to it is found later (\<^verbatim>\<open>g_score\<close>, \<^verbatim>\<open>f_score\<close> and \<^verbatim>\<open>came_from\<close> are
  updated, the heap entry is not), so it can be popped after the end cell. On the grid
  above, from the pursuer's corner \<open>(4, 4)\<close> to \<open>(3, 0)\<close>, the cell \<open>(4, 2)\<close> is first reached
  in 4 steps and pushed with priority 7, then reached in 2 steps through \<open>(4, 3)\<close>, and its
  entry \<open>(7, (4, 2))\<close> is still waiting when \<open>(7, (3, 0))\<close> is popped: \<^verbatim>\<open>find_path\<close> returns
  7 steps although a walk of 5 steps exists.
\<close>

theorem find_path_not_shortest:
  "Grid_init 5 5 EASY detour_draws = Some (Inr detour_grid) \<and>
   find_path detour_grid (4, 4) (3, 0)
     = Some (Inr [(3, 4), (3, 3), (3, 2), (2, 2), (2, 1), (2, 0), (3, 0)]) \<and>
   is_walk detour_grid (4, 4) [(4, 3), (4, 2), (4, 1), (4, 0), (3, 0)] \<and>
   is_path_exists detour_grid (4, 4) (3, 0) \<and>
   length [(4, 3), (4, 2), (4, 1), (4, 0), (3, 0) :: pos]
     < length [(3, 4), (3, 3), (3, 2), (2, 2), (2, 1), (2, 0), (3, 0) :: pos]"
  by code_simp

text \<open>
  The same happens on a board of the size the game plays on, 10 by 10 with the 15 obstacles
  of \<^verbatim>\<open>Difficulty.EASY\<close>, none of them on a corner and the goal within reach of the player:
  the first \<^verbatim>\<open>find_path(ai_pos, player_pos)\<close> of \<^verbatim>\<open>move_ai\<close> on this board returns 15 steps
  where 13 are enough.
\<close>

definition game_grid :: Grid where
  "game_grid =
     \<lparr>width = 10, height = 10, difficulty = EASY,
      cells = map (\<lambda>x. map (\<lambda>y. \<lparr>cell_x = x, cell_y = y,
                 is_obstacle = (x, y) \<in> set [(0, 5), (1, 5), (1, 6), (1, 8), (1, 9), (4, 8),
                    (5, 1), (6, 0), (6, 2), (6, 4), (6, 9), (7, 9), (9, 5), (9, 6), (9, 8)],
                 is_goal = ((x, y) = (9, 0)), is_start = ((x, y) = (0, 0))\<rparr>) [0..9]) [0..9],
      player_pos = (0, 9), ai_pos = (9, 9), goal_pos = (9, 0)\<rparr>"

lemma find_path_not_shortest_game:
  "num_obstacles game_grid = Inr 15 \<and>
   is_path_exists game_grid (player_pos game_grid) (goal_pos game_grid) \<and>
   find_path game_grid (ai_pos game_grid) (player_pos game_grid)
     = Some (Inr [(8, 9), (8, 8), (7, 8), (6, 8), (5, 8), (5, 9), (4, 9), (3, 9), (2, 9),
                  (2, 8), (2, 7), (1, 7), (0, 7), (0, 8), (0, 9)]) \<and>
   is_walk game_grid (9, 9) [(8, 9), (8, 8), (8, 7), (7, 7), (6, 7), (5, 7), (4, 7), (3, 7),
                             (2, 7), (1, 7), (0, 7), (0, 8), (0, 9)]"
  by code_simp

subsection \<open>Order of processing in the open set\<close>

lemma heap_least_le:
  assumes "heap \<noteq> []" and "e \<in> set heap"
  shows "heap_least heap \<le> e"
proof -
  from assms(1) obtain x xs where h: "heap = x # xs" by (cases heap) auto
  have "fold min xs x = Min (set (x # xs))"
    by (rule Min.set_eq_fold [symmetric])
  then have "heap_least heap = Min (set heap)"
    by (simp add: h heap_least_def)
  with assms(2) show ?thesis by simp
qed

text \<open>
  C4, as stated, fails. Searching from \<open>(0, 0)\<close> to \<open>(2, 2)\<close> on the open 3 by 3 grid, the
  first pass of the loop discovers \<open>(1, 0)\<close> and then \<open>(0, 1)\<close>, both with \<^verbatim>\<open>f_score\<close> 4; the
  next pop takes \<open>(0, 1)\<close>, the one discovered second, and the second pass closes it while
  \<open>(1, 0)\<close> stays in the open set.
\<close>

theorem heappop_order_counterexample:
  "map_sum id open_set (expand (grid_of 3 3 []) (2, 2) (astar_init (0, 0) (2, 2)))
     = Inr [(4, (1, 0)), (4, (0, 1))] \<and>
   fst (heappop [(4, (1, 0)), (4, (0, 1))]) = (4, (0, 1)) \<and>
   map_sum id closed_set
     (case_sum Inl (expand (grid_of 3 3 []) (2, 2))
        (expand (grid_of 3 3 []) (2, 2) (astar_init (0, 0) (2, 2))))
     = Inr {(0, 0), (0, 1)}"
  by code_simp

text \<open>
  The state of that search after its first pass: the start is closed, its two neighbours
  are open.
\<close>

definition first_pass :: astar where
  "first_pass =
     \<lparr>open_set = [(4, (1, 0)), (4, (0, 1))], closed_set = {(0, 0)},
      came_from = [(1, 0) \<mapsto> (0, 0), (0, 1) \<mapsto> (0, 0)],
      g_score = [(0, 0) \<mapsto> 0, (1, 0) \<mapsto> 1, (0, 1) \<mapsto> 1],
      f_score = [(0, 0) \<mapsto> 4, (1, 0) \<mapsto> 4, (0, 1) \<mapsto> 4]\<rparr>"

lemma first_pass_reached:
  "map_sum id (\<lambda>st. (open_set st, closed_set st,
       map (came_from st) [(0, 0), (1, 0), (0, 1)], map (g_score st) [(0, 0), (1, 0), (0, 1)],
       map (f_score st) [(0, 0), (1, 0), (0, 1)]))
     (expand (grid_of 3 3 []) (2, 2) (astar_init (0, 0) (2, 2)))
   = Inr (open_set first_pass, closed_set first_pass,
       map (came_from first_pass) [(0, 0), (1, 0), (0, 1)],
       map (g_score first_pass) [(0, 0), (1, 0), (0, 1)],
       map (f_score first_pass) [(0, 0), (1, 0), (0, 1)])"
  by code_simp

text \<open>
  C4, amended. In every state of the search with a non-empty open set, the candidate that
  the next pass of the loop of \<^verbatim>\<open>find_path\<close> processes (compares with the end, closes, and
  whose neighbours it relaxes) is the least \<^verbatim>\<open>(f_score, (x, y))\<close> tuple of the open set:
  among entries of equal \<^verbatim>\<open>f_score\<close> the one with the smaller \<open>x\<close>, and for equal \<open>x\<close> the
  smaller \<open>y\<close>, comes first, whatever the order of discovery.
\<close>

theorem find_path_loop_next:
  assumes "open_set st \<noteq> []"
    and "fst (heappop (open_set st)) = (f, (x, y))"
    and "(f', (x', y')) \<in> set (open_set st)"
  shows "(f, (x, y)) \<in> set (open_set st) \<and>
         (f < f' \<or> (f = f' \<and> (x < x' \<or> (x = x' \<and> y \<le> y')))) \<and>
         find_path_loop g end st =
           (if (x, y) = end then map_option Inr (reconstruct (came_from st) end [])
            else case relax_all end (x, y) (get_neighbors g (x, y))
                        (st\<lparr>open_set := remove1 (f, (x, y)) (open_set st),
                            closed_set := insert (x, y) (closed_set st)\<rparr>) of
                   Inl e \<Rightarrow> Some (Inl e)
                 | Inr st' \<Rightarrow> find_path_loop g end st')"
proof -
  from assms(2) have l: "heap_least (open_set st) = (f, (x, y))" by (simp add: heappop_def)
  from heap_least_mem [OF assms(1)] l have 1: "(f, (x, y)) \<in> set (open_set st)" by simp
  from heap_least_le [OF assms(1,3)] l
  have "(f, (x, y)) \<le> (f', (x', y'))" by simp
  then have 2: "f < f' \<or> (f = f' \<and> (x < x' \<or> (x = x' \<and> y \<le> y')))" by auto
  have 3: "find_path_loop g end st =
           (if (x, y) = end then map_option Inr (reconstruct (came_from st) end [])
            else case relax_all end (x, y) (get_neighbors g (x, y))
                        (st\<lparr>open_set := remove1 (f, (x, y)) (open_set st),
                            closed_set := insert (x, y) (closed_set st)\<rparr>) of
                   Inl e \<Rightarrow> Some (Inl e)
                 | Inr st' \<Rightarrow> find_path_loop g end st')"
    using assms(1) l
    by (subst find_path_loop.simps) (simp add: expand_def heappop_def Let_def)
  from 1 2 3 show ?thesis by simp
qed

theorem find_path_loop_next_witness:
  "open_set first_pass \<noteq> [] \<and>
   fst (heappop (open_set first_pass)) = (4, (0, 1)) \<and>
   (4, (1, 0)) \<in> set (open_set first_pass) \<and>
   (4, (0, 1)) \<in> set (open_set first_pass) \<and>
   (0 :: int) < 1 \<and>
   find_path_loop (grid_of 3 3 []) (2, 2) first_pass
     = Some (Inr [(0, 1), (0, 2), (1, 2), (2, 2)])"
proof -
  have 1: "open_set first_pass \<noteq> []" by (simp add: first_pass_def)
  have 2: "fst (heappop (open_set first_pass)) = (4, (0, 1))" by code_simp
  have 3: "(4, (1, 0)) \<in> set (open_set first_pass)" by (simp add: first_pass_def)
  have 4: "(case relax_all (2, 2) (0, 1) (get_neighbors (grid_of 3 3 []) (0, 1))
                        (first_pass\<lparr>open_set := remove1 (4, (0, 1)) (open_set first_pass),
                            closed_set := insert (0, 1) (closed_set first_pass)\<rparr>) of
                   Inl e \<Rightarrow> Some (Inl e)
                 | Inr st' \<Rightarrow> find_path_loop (grid_of 3 3 []) (2, 2) st')
            = Some (Inr [(0, 1), (0, 2), (1, 2), (2, 2)])" by code_simp
  from find_path_loop_next [OF 1 2 3, of "grid_of 3 3 []" "(2, 2)"] 1 2 3 4
  show ?thesis by simp
qed

subsection \<open>The pursuer's move\<close>

lemma find_path_loop_empty: "open_set st = [] \<Longrightarrow> find_path_loop g e st = Some (Inr [])"
  by (subst find_path_loop.simps) simp

lemma find_path_isolated:
  assumes "start \<noteq> e" and "get_neighbors g start = []"
  shows "find_path g start e = Some (Inr [])"
proof -
  have pop: "heappop [(0, start)] = ((0, start), [])"
    by (simp add: heappop_def heap_least_def)
  have ex: "expand g e (astar_init start e)
      = Inr ((astar_init start e)\<lparr>open_set := [], closed_set := insert start {}\<rparr>)"
    using assms(2) by (simp add: expand_def astar_init_def heappush_def pop)
  have "find_path_loop g e (astar_init start e) = Some (Inr [])"
    apply (subst find_path_loop.simps)
    using assms(1) ex
    by (simp add: astar_init_def heappush_def pop find_path_loop_empty)
  then show ?thesis
    using assms(1) by (simp add: find_path_def)
qed

lemma no_neighbors_invalid:
  assumes "get_neighbors g (x, y) = []"
  shows "\<not> is_valid_move g (x, y - 1)" "\<not> is_valid_move g (x + 1, y)"
    "\<not> is_valid_move g (x, y + 1)" "\<not> is_valid_move g (x - 1, y)"
  using assms by (auto simp: get_neighbors_unfold split: if_splits)

lemma possible_moves_boxed:
  assumes "get_neighbors g (ai_pos g) = []"
  shows "possible_moves g = []"
proof -
  obtain x y where a: "ai_pos g = (x, y)" by (cases "ai_pos g")
  obtain px py where p: "player_pos g = (px, py)" by (cases "player_pos g")
  from no_neighbors_invalid [OF assms [unfolded a]] show ?thesis
    by (simp add: possible_moves_def a p)
qed

lemma is_valid_move_ai_pos [simp]: "is_valid_move (g\<lparr>ai_pos := p\<rparr>) = is_valid_move g"
  by (simp add: is_valid_move_def cell_at_def fun_eq_iff)

lemma step_to_grid: "grid (step_to p k s) = (grid s)\<lparr>ai_pos := p\<rparr>"
  by (simp add: step_to_def Let_def game_over_def print_def set_ai_pos_def)

lemma random_choice_mem: "xs \<noteq> [] \<Longrightarrow> random_choice r xs \<in> set xs"
  by (simp add: random_choice_def)

lemma possible_moves_neighbors: "set (possible_moves g) \<subseteq> set (get_neighbors g (ai_pos g))"
proof -
  obtain x y where a: "ai_pos g = (x, y)" by (cases "ai_pos g")
  obtain px py where p: "player_pos g = (px, py)" by (cases "player_pos g")
  have "q \<in> set (get_neighbors g (x, y))"
    if "q \<in> set [(x, y - 1), (x + 1, y), (x, y + 1), (x - 1, y)]" "is_valid_move g q" for q
    using that unfolding get_neighbors_unfold set_filter by blast
  then show ?thesis
    by (auto simp: possible_moves_def a p split: if_splits)
qed

text \<open>
  C6. When \<^verbatim>\<open>ai_pos\<close> equals \<^verbatim>\<open>player_pos\<close> on entry, \<^verbatim>\<open>move_ai\<close> calls \<^verbatim>\<open>game_over\<close> (the state
  becomes \<^verbatim>\<open>GAME_OVER\<close> and \<^verbatim>\<open>ai_won\<close> is set) and returns without changing \<^verbatim>\<open>ai_pos\<close>.
\<close>

theorem move_ai_already_on_player:
  assumes "ai_pos (grid s) = player_pos (grid s)"
  shows "\<exists>s'. move_ai r s = Some (Inr s') \<and> state s' = GAME_OVER \<and> ai_won s' \<and>
           ai_pos (grid s') = ai_pos (grid s) \<and> grid s' = grid s \<and>
           printed s' = printed s @ [Already_on_player, Game_over_caught]"
  using assms by (simp add: move_ai_def game_over_def print_def)

theorem move_ai_already_on_player_witness:
  "ai_pos (grid (game_on ((grid_of 3 3 [])\<lparr>player_pos := (2, 2)\<rparr>)))
     = player_pos (grid (game_on ((grid_of 3 3 [])\<lparr>player_pos := (2, 2)\<rparr>))) \<and>
   map_option (map_sum id (\<lambda>s'. (state s', ai_won s', ai_pos (grid s'), printed s')))
     (move_ai 0 (game_on ((grid_of 3 3 [])\<lparr>player_pos := (2, 2)\<rparr>)))
     = Some (Inr (GAME_OVER, True, (2, 2), [Already_on_player, Game_over_caught]))"
proof -
  let ?s = "game_on ((grid_of 3 3 [])\<lparr>player_pos := (2, 2)\<rparr>)"
  have h: "ai_pos (grid ?s) = player_pos (grid ?s)"
    by (simp add: game_on_def grid_of_def)
  have a: "ai_pos (grid ?s) = (2, 2)" and p: "printed ?s = []"
    by (simp_all add: game_on_def grid_of_def)
  from move_ai_already_on_player [OF h, of 0] a p h show ?thesis by auto
qed

text \<open>
  C7. When \<^verbatim>\<open>ai_pos\<close> differs from \<^verbatim>\<open>player_pos\<close> and \<^verbatim>\<open>get_neighbors(ai_pos)\<close> is empty,
  \<^verbatim>\<open>move_ai\<close> reaches its last branch: it prints that the pursuer could not move and changes
  nothing else, so \<^verbatim>\<open>ai_pos\<close> keeps its value and the game is not over.
\<close>

theorem move_ai_stalled:
  assumes "ai_pos (grid s) \<noteq> player_pos (grid s)"
    and "get_neighbors (grid s) (ai_pos (grid s)) = []"
  shows "move_ai r s = Some (Inr (s\<lparr>printed := printed s @ [AI_could_not_move]\<rparr>))"
  using assms find_path_isolated [OF assms] possible_moves_boxed [OF assms(2)]
  by (simp add: move_ai_def print_def)

theorem move_ai_stalled_witness:
  "ai_pos (grid (game_on (grid_of 3 3 [(1, 2), (2, 1)])))
     \<noteq> player_pos (grid (game_on (grid_of 3 3 [(1, 2), (2, 1)]))) \<and>
   get_neighbors (grid (game_on (grid_of 3 3 [(1, 2), (2, 1)])))
     (ai_pos (grid (game_on (grid_of 3 3 [(1, 2), (2, 1)])))) = [] \<and>
   move_ai 0 (game_on (grid_of 3 3 [(1, 2), (2, 1)]))
     = Some (Inr ((game_on (grid_of 3 3 [(1, 2), (2, 1)]))\<lparr>printed := [AI_could_not_move]\<rparr>))"
proof -
  let ?s = "game_on (grid_of 3 3 [(1, 2), (2, 1)])"
  have h1: "ai_pos (grid ?s) \<noteq> player_pos (grid ?s)" by code_simp
  have h2: "get_neighbors (grid ?s) (ai_pos (grid ?s)) = []" by code_simp
  have p: "printed ?s = []" by (simp add: game_on_def)
  from move_ai_stalled [OF h1 h2, of 0] h1 h2 p show ?thesis by simp
qed

lemma find_path_open_10:
  "find_path ((grid_of 10 10 [])\<lparr>player_pos := (0, 0)\<rparr>) (9, 9) (0, 0)
     = Some (Inr [(8, 9), (7, 9), (6, 9), (5, 9), (4, 9), (3, 9), (2, 9), (1, 9),
                  (0, 9), (0, 8), (0, 7), (0, 6), (0, 5), (0, 4), (0, 3), (0, 2),
                  (0, 1), (0, 0)])"
  by code_simp

text \<open>
  C8. On the 10 by 10 grid without obstacles, with the pursuer at \<open>(9, 9)\<close> and the player at
  \<open>(0, 0)\<close>, one call of \<^verbatim>\<open>move_ai\<close> moves the pursuer to \<open>(8, 9)\<close>, whatever the random draw;
  the game stays in \<^verbatim>\<open>PLAYING\<close> (\<^verbatim>\<open>game_over\<close> is not called) and the move is the one printed.
\<close>

theorem move_ai_open_10:
  "\<exists>s'. move_ai r (game_on ((grid_of 10 10 [])\<lparr>player_pos := (0, 0)\<rparr>)) = Some (Inr s') \<and>
        ai_pos (grid s') = (8, 9) \<and> state s' = PLAYING \<and> \<not> ai_won s' \<and>
        printed s' = [AI_moved (8, 9) Via_pathfinding]"
proof -
  let ?g = "(grid_of 10 10 [])\<lparr>player_pos := (0, 0)\<rparr>"
  have a: "ai_pos ?g = (9, 9)" and p: "player_pos ?g = (0, 0)"
    by (simp_all add: grid_of_def)
  have g: "grid (game_on ?g) = ?g" by (simp add: game_on_def)
  show ?thesis
    unfolding move_ai_def g a p find_path_open_10
    by (simp add: step_to_def set_ai_pos_def print_def game_on_def grid_of_def)
qed

text \<open>
  C10. If \<^verbatim>\<open>ai_pos\<close> is a valid cell (in bounds, not an obstacle) before \<^verbatim>\<open>move_ai\<close>, then for
  every random draw the call returns, \<^verbatim>\<open>ai_pos\<close> is a valid cell afterwards, and it is
  either unchanged or cardinally adjacent to its previous value.
\<close>

theorem move_ai_one_step:
  assumes "is_valid_move (grid s) (ai_pos (grid s))"
  shows "\<exists>s'. move_ai r s = Some (Inr s') \<and>
           is_valid_move (grid s') (ai_pos (grid s')) \<and>
           (ai_pos (grid s') = ai_pos (grid s) \<or> adjacent (ai_pos (grid s)) (ai_pos (grid s')))"
proof (cases "ai_pos (grid s) = player_pos (grid s)")
  case True
  then show ?thesis
    using assms by (simp add: move_ai_def game_over_def print_def)
next
  case False
  let ?g = "grid s"
  from find_path_correct [OF False, of ?g] obtain p where
    fp: "find_path ?g (ai_pos ?g) (player_pos ?g) = Some (Inr p)"
    and walk: "is_walk ?g (ai_pos ?g) p" by blast
  have move: "\<exists>s'. Some (Inr (step_to q k s)) = Some (Inr s') \<and>
           is_valid_move (grid s') (ai_pos (grid s')) \<and>
           (ai_pos (grid s') = ai_pos ?g \<or> adjacent (ai_pos ?g) (ai_pos (grid s')))"
    if "q \<in> set (get_neighbors ?g (ai_pos ?g))" for q k
    using neighbor_valid_adjacent [OF that] by (simp add: step_to_grid)
  show ?thesis
  proof (cases "p = []")
    case pne: False
    then have "hd p \<in> set (get_neighbors ?g (ai_pos ?g))"
      using walk by (cases p) auto
    from move [OF this, of Via_pathfinding] show ?thesis
      using False fp pne by (simp add: move_ai_def)
  next
    case True
    show ?thesis
    proof (cases "possible_moves ?g = []")
      case pm: False
      from random_choice_mem [OF pm, of r] possible_moves_neighbors
      have "random_choice r (possible_moves ?g) \<in> set (get_neighbors ?g (ai_pos ?g))" by blast
      from move [OF this, of Direct] show ?thesis
        using False fp True pm by (simp add: move_ai_def)
    next
      case pm: True
      show ?thesis
      proof (cases "get_neighbors ?g (ai_pos ?g) = []")
        case nb: False
        from move [OF random_choice_mem [OF nb, of r], of Random] show ?thesis
          using False fp True pm nb by (simp add: move_ai_def)
      next
        case nb: True
        show ?thesis
          using False fp True pm nb assms by (simp add: move_ai_def print_def)
      qed
    qed
  qed
qed

theorem move_ai_one_step_witness:
  "is_valid_move (grid (game_on (grid_of 3 3 []))) (ai_pos (grid (game_on (grid_of 3 3 [])))) \<and>
   map_option (map_sum id (\<lambda>s'. (is_valid_move (grid s') (ai_pos (grid s')),
                                   adjacent (ai_pos (grid (game_on (grid_of 3 3 []))))
                                            (ai_pos (grid s')))))
     (move_ai 0 (game_on (grid_of 3 3 []))) = Some (Inr (True, True))"
proof -
  let ?s = "game_on (grid_of 3 3 [])"
  have h: "is_valid_move (grid ?s) (ai_pos (grid ?s))" by code_simp
  from move_ai_one_step [OF h, of 0] obtain s' where
    m: "move_ai 0 ?s = Some (Inr s')" and v: "is_valid_move (grid s') (ai_pos (grid s'))"
    and d: "ai_pos (grid s') = ai_pos (grid ?s) \<or> adjacent (ai_pos (grid ?s)) (ai_pos (grid s'))"
    by blast
  have "map_option (map_sum id (\<lambda>s'. ai_pos (grid s'))) (move_ai 0 ?s) = Some (Inr (1, 2))"
    by code_simp
  with m have q: "ai_pos (grid s') = (1, 2)" by simp
  have "ai_pos (grid ?s) = (2, 2)" by (simp add: game_on_def grid_of_def)
  with d q have "adjacent (ai_pos (grid ?s)) (ai_pos (grid s'))" by auto
  with h m v show ?thesis by simp
qed

subsection \<open>Grid generation\<close>

declare place_obstacles.simps [simp del]

lemma py_index_Inr:
  "py_index xs i = Inr v \<longleftrightarrow>
     0 \<le> py_norm xs i \<and> nat (py_norm xs i) < length xs \<and> v = xs ! nat (py_norm xs i)"
  by (auto simp: py_index_def)

lemma update_cell_rollback:
  assumes rd: "read_cell g x y = Inr c" and free: "\<not> is_obstacle c"
    and u1: "update_cell g x y (\<lambda>c. c\<lparr>is_obstacle := True\<rparr>) = Inr g1"
    and u2: "update_cell g1 x y (\<lambda>c. c\<lparr>is_obstacle := False\<rparr>) = Inr g2"
  shows "g2 = g"
proof -
  let ?i = "nat (py_norm (cells g) x)"
  let ?col = "cells g ! ?i"
  let ?j = "nat (py_norm ?col y)"
  from rd have i: "0 \<le> py_norm (cells g) x" "?i < length (cells g)"
    and j: "0 \<le> py_norm ?col y" "?j < length ?col" and c: "c = ?col ! ?j"
    by (auto simp: read_cell_def py_index_Inr split: sum.splits)
  have ix: "py_index (cells g) x = Inr ?col" using i by (simp add: py_index_Inr)
  have jy: "py_index ?col y = Inr c" using j c by (simp add: py_index_Inr)
  let ?col1 = "?col[?j := c\<lparr>is_obstacle := True\<rparr>]"
  have g1: "g1 = g\<lparr>cells := (cells g)[?i := ?col1]\<rparr>"
    using u1 ix jy by (simp add: update_cell_def)
  have n1: "py_norm (cells g1) x = py_norm (cells g) x"
    by (simp add: g1 py_norm_def)
  have c1: "cells g1 ! ?i = ?col1" using i by (simp add: g1)
  have m1: "py_norm ?col1 y = py_norm ?col y" by (simp add: py_norm_def)
  have len1: "length (cells g1) = length (cells g)" by (simp add: g1)
  have ix1: "py_index (cells g1) x = Inr ?col1"
    using i by (simp add: py_index_Inr n1 c1 len1)
  have jy1: "py_index ?col1 y = Inr (c\<lparr>is_obstacle := True\<rparr>)"
    using j by (simp add: py_index_Inr m1)
  have "g2 = g1\<lparr>cells := (cells g1)[?i := ?col1[?j := c\<lparr>is_obstacle := True\<rparr>\<lparr>is_obstacle := False\<rparr>]]\<rparr>"
    using u2 ix1 jy1 by (simp add: update_cell_def n1 m1)
  moreover have "c\<lparr>is_obstacle := True\<rparr>\<lparr>is_obstacle := False\<rparr> = c"
    using free by simp
  moreover have "?col[?j := c] = ?col" using c by simp
  ultimately show ?thesis
    by (simp add: g1)
qed

lemma place_obstacles_solvable:
  "is_path_exists g (player_pos g) (goal_pos g) \<Longrightarrow>
   place_obstacles rs n k g = Some (Inr g') \<Longrightarrow>
   is_path_exists g' (player_pos g') (goal_pos g')"
proof (induction rs arbitrary: k g)
  case Nil
  then show ?case
    by (subst (asm) place_obstacles.simps) (simp split: if_splits)
next
  case (Cons r rs)
  note solv = Cons.prems(1) and res = Cons.prems(2)
  show ?case
  proof (cases "k < n")
    case False
    with res have "g' = g" by (subst (asm) place_obstacles.simps) simp
    with solv show ?thesis by simp
  next
    case True
    let ?x = "randint 0 (width g - 1) (fst r)"
    let ?y = "randint 0 (height g - 1) (snd r)"
    show ?thesis
    proof (cases "(?x, ?y) = (0, 0) \<or> (?x, ?y) = (width g - 1, 0)
             \<or> (?x, ?y) = player_pos g \<or> (?x, ?y) = ai_pos g")
      case skip: True
      then have "place_obstacles (r # rs) n k g = place_obstacles rs n k g"
        using True by (subst place_obstacles.simps) (auto simp: Let_def)
      with res Cons.IH [OF solv] show ?thesis by simp
    next
      case noskip: False
      show ?thesis
      proof (cases "read_cell g ?x ?y")
        case (Inl e)
        then have "place_obstacles (r # rs) n k g = Some (Inl e)"
          using True noskip by (subst place_obstacles.simps) (auto simp: Let_def)
        with res show ?thesis by simp
      next
        case (Inr c)
        show ?thesis
        proof (cases "is_obstacle c")
          case ob: True
          then have "place_obstacles (r # rs) n k g = place_obstacles rs n k g"
            using True noskip Inr by (subst place_obstacles.simps) (auto simp: Let_def)
          with res Cons.IH [OF solv] show ?thesis by simp
        next
          case free: False
          show ?thesis
          proof (cases "update_cell g ?x ?y (\<lambda>c. c\<lparr>is_obstacle := True\<rparr>)")
            case (Inl e)
            then have "place_obstacles (r # rs) n k g = Some (Inl e)"
              using True noskip Inr free by (subst place_obstacles.simps) (auto simp: Let_def)
            with res show ?thesis by simp
          next
            case g1: (Inr g1)
            show ?thesis
            proof (cases "is_path_exists g1 (player_pos g1) (goal_pos g1)")
              case ok: True
              then have "place_obstacles (r # rs) n k g = place_obstacles rs n (k + 1) g1"
                using True noskip Inr free g1
                by (subst place_obstacles.simps) (auto simp: Let_def)
              with res Cons.IH [OF ok] show ?thesis by simp
            next
              case bad: False
              show ?thesis
              proof (cases "update_cell g1 ?x ?y (\<lambda>c. c\<lparr>is_obstacle := False\<rparr>)")
                case (Inl e)
                then have "place_obstacles (r # rs) n k g = Some (Inl e)"
                  using True noskip Inr free g1 bad
                  by (subst place_obstacles.simps) (auto simp: Let_def)
                with res show ?thesis by simp
              next
                case g2: (Inr g2)
                have "g2 = g" by (rule update_cell_rollback [OF Inr free g1 g2])
                moreover have "place_obstacles (r # rs) n k g = place_obstacles rs n k g2"
                  using True noskip Inr free g1 bad g2
                  by (subst place_obstacles.simps) (auto simp: Let_def)
                ultimately show ?thesis using res Cons.IH [OF solv] by simp
              qed
            qed
          qed
        qed
      qed
    qed
  qed
qed


definition all_free :: "Grid \<Rightarrow> bool" where
  "all_free g \<longleftrightarrow> grid_wf g \<and> (\<forall>col \<in> set (cells g). \<forall>c \<in> set col. \<not> is_obstacle c)"

lemma all_free_valid:
  assumes "all_free g"
  shows "is_valid_move g (x, y) \<longleftrightarrow> 0 \<le> x \<and> x < width g \<and> 0 \<le> y \<and> y < height g"
proof (cases "0 \<le> x \<and> x < width g \<and> 0 \<le> y \<and> y < height g")
  case False
  then show ?thesis by (auto simp: is_valid_move_def)
next
  case True
  from assms have len: "int (length (cells g)) = max 0 (width g)"
    and cols: "\<forall>col \<in> set (cells g). int (length col) = max 0 (height g)"
    and free: "\<forall>col \<in> set (cells g). \<forall>c \<in> set col. \<not> is_obstacle c"
    by (auto simp: all_free_def grid_wf_def)
  from True len have "nat x < length (cells g)" by linarith
  then have col: "cells g ! nat x \<in> set (cells g)" by simp
  with cols True have "nat y < length (cells g ! nat x)" by fastforce
  then have "cells g ! nat x ! nat y \<in> set (cells g ! nat x)" by simp
  with free col have "\<not> is_obstacle (cell_at g x y)" by (auto simp: cell_at_def)
  with True show ?thesis by (simp add: is_valid_move_def)
qed

lemma update_cell_all_free:
  assumes free: "all_free g" and u: "update_cell g x y upd = Inr g'"
    and keep: "\<And>c. is_obstacle (upd c) = is_obstacle c"
  shows "all_free g'" and "width g' = width g" and "height g' = height g"
proof -
  let ?i = "nat (py_norm (cells g) x)"
  let ?col = "cells g ! ?i"
  let ?j = "nat (py_norm ?col y)"
  from u have i: "?i < length (cells g)" and j: "?j < length ?col"
    and g': "g' = g\<lparr>cells := (cells g)[?i := ?col[?j := upd (?col ! ?j)]]\<rparr>"
    by (auto simp: update_cell_def py_index_Inr split: sum.splits)
  show "width g' = width g" "height g' = height g" by (simp_all add: g')
  have colmem: "?col \<in> set (cells g)" using i by simp
  have sub: "set (cells g') \<subseteq> insert (?col[?j := upd (?col ! ?j)]) (set (cells g))"
    unfolding g' by (simp add: set_update_subset_insert)
  have sub2: "set (?col[?j := upd (?col ! ?j)]) \<subseteq> insert (upd (?col ! ?j)) (set ?col)"
    by (rule set_update_subset_insert)
  have cj: "?col ! ?j \<in> set ?col" using j by simp
  from free have wf: "grid_wf g"
    and fr: "\<forall>col \<in> set (cells g). \<forall>c \<in> set col. \<not> is_obstacle c"
    by (simp_all add: all_free_def)
  have "grid_wf g'"
    unfolding grid_wf_def
  proof (intro conjI ballI)
    show "int (length (cells g')) = max 0 (width g')"
      using wf by (simp add: g' grid_wf_def)
    fix col assume "col \<in> set (cells g')"
    with sub have "col = ?col[?j := upd (?col ! ?j)] \<or> col \<in> set (cells g)" by auto
    then show "int (length col) = max 0 (height g')"
      using wf colmem by (auto simp: g' grid_wf_def)
  qed
  moreover have "\<forall>col \<in> set (cells g'). \<forall>c \<in> set col. \<not> is_obstacle c"
  proof (intro ballI)
    fix col c assume col: "col \<in> set (cells g')" and c: "c \<in> set col"
    from col sub have "col = ?col[?j := upd (?col ! ?j)] \<or> col \<in> set (cells g)" by auto
    then show "\<not> is_obstacle c"
    proof
      assume "col \<in> set (cells g)" with fr c show ?thesis by blast
    next
      assume "col = ?col[?j := upd (?col ! ?j)]"
      with c sub2 have "c = upd (?col ! ?j) \<or> c \<in> set ?col" by auto
      then show ?thesis using fr colmem cj keep by auto
    qed
  qed
  ultimately show "all_free g'" by (simp add: all_free_def)
qed

lemma row_reach:
  assumes "all_free g" and "0 \<le> y" "y < height g" and "0 \<le> x"
  shows "x + int k < width g \<Longrightarrow> ((x, y), (x + int k, y)) \<in> (edges g)\<^sup>*"
proof (induction k)
  case 0
  then show ?case by simp
next
  case (Suc k)
  then have prev: "((x, y), (x + int k, y)) \<in> (edges g)\<^sup>*" by simp
  have "is_valid_move g (x + int k + 1, y)"
    using assms Suc.prems by (simp add: all_free_valid)
  then have "((x + int k, y), (x + int k + 1, y)) \<in> edges g"
    by (simp add: edges_def get_neighbors_unfold)
  with prev have "((x, y), (x + int k + 1, y)) \<in> (edges g)\<^sup>*"
    by (rule rtrancl_into_rtrancl)
  then show ?case by (simp add: algebra_simps)
qed

lemma column_reach:
  assumes "all_free g" and "0 \<le> x" "x < width g" and "y < height g"
  shows "0 \<le> y - int k \<Longrightarrow> ((x, y), (x, y - int k)) \<in> (edges g)\<^sup>*"
proof (induction k)
  case 0
  then show ?case by simp
next
  case (Suc k)
  then have prev: "((x, y), (x, y - int k)) \<in> (edges g)\<^sup>*" by simp
  have "is_valid_move g (x, y - int k - 1)"
    using assms Suc.prems by (simp add: all_free_valid)
  then have "((x, y - int k), (x, y - int k - 1)) \<in> edges g"
    by (simp add: edges_def get_neighbors_unfold)
  with prev have "((x, y), (x, y - int k - 1)) \<in> (edges g)\<^sup>*"
    by (rule rtrancl_into_rtrancl)
  then show ?case by (simp add: algebra_simps)
qed

lemma all_free_solvable:
  assumes free: "all_free g" and w: "1 \<le> width g" and h: "1 \<le> height g"
  shows "((0, height g - 1), (width g - 1, 0)) \<in> (edges g)\<^sup>*"
proof -
  have "((0, height g - 1), (0 + int (nat (width g - 1)), height g - 1)) \<in> (edges g)\<^sup>*"
    by (rule row_reach [OF free]) (use w h in simp_all)
  then have 1: "((0, height g - 1), (width g - 1, height g - 1)) \<in> (edges g)\<^sup>*"
    using w by simp
  have "((width g - 1, height g - 1), (width g - 1, height g - 1 - int (nat (height g - 1))))
      \<in> (edges g)\<^sup>*"
    by (rule column_reach [OF free]) (use w h in simp_all)
  then have 2: "((width g - 1, height g - 1), (width g - 1, 0)) \<in> (edges g)\<^sup>*"
    using h by simp
  from 1 2 show ?thesis by (rule rtrancl_trans)
qed

lemma all_free_new:
  "all_free \<lparr>width = w, height = h, difficulty = d,
        cells = map (\<lambda>x. map (\<lambda>y. new_Cell x y) [0..h - 1]) [0..w - 1],
        player_pos = p1, ai_pos = p2, goal_pos = p3\<rparr>"
  by (auto simp: all_free_def grid_wf_def new_Cell_def)

lemma all_free_positions:
  "all_free (g\<lparr>player_pos := p1, ai_pos := p2, goal_pos := p3\<rparr>) = all_free g"
  by (simp add: all_free_def grid_wf_def)

lemma new_grid_flag_error:
  assumes "w \<le> 0 \<or> h \<le> 0"
  shows "update_cell \<lparr>width = w, height = h, difficulty = d,
        cells = map (\<lambda>x. map (\<lambda>y. new_Cell x y) [0..h - 1]) [0..w - 1],
        player_pos = p1, ai_pos = p2, goal_pos = p3\<rparr> 0 0 upd = Inl IndexError"
proof (cases "w \<le> 0")
  case True
  then show ?thesis
    by (simp add: update_cell_def py_index_def py_norm_def)
next
  case False
  with assms have h: "h \<le> 0" and w: "0 < w" by auto
  from w have "[0..w - 1] = 0 # [1..w - 1]" by (simp add: upto_rec1)
  then show ?thesis
    using h by (simp add: update_cell_def py_index_def py_norm_def)
qed

lemma reach_walk:
  assumes "(a, b) \<in> (edges g)\<^sup>*"
  shows "\<exists>p. is_walk g a p \<and> last (a # p) = b"
  using assms
proof (induction rule: converse_rtrancl_induct)
  case base
  have "is_walk g b [] \<and> last (b # []) = b" by simp
  then show ?case by blast
next
  case (step a c)
  from step.IH obtain p where p: "is_walk g c p" "last (c # p) = b" by blast
  from step.hyps(1) have "c \<in> set (get_neighbors g a)" by (simp add: edges_def)
  with p have "is_walk g a (c # p) \<and> last (a # c # p) = b" by simp
  then show ?case by blast
qed

text \<open>
  C1. Whenever grid construction returns a grid, for any width, height and difficulty
  (widths and heights of at least 2 among them) and any sequence of random draws, a walk
  leads from \<^verbatim>\<open>player_pos\<close> to \<^verbatim>\<open>goal_pos\<close> on that grid, each of its steps entering an
  in-bounds, non-obstacle cell next to the previous one, and \<^verbatim>\<open>is_path_exists(player_pos,
  goal_pos)\<close> is true.
\<close>

theorem generate_grid_solvable:
  assumes "Grid_init w h d rs = Some (Inr g)"
  shows "(\<exists>p. is_walk g (player_pos g) p \<and> last (player_pos g # p) = goal_pos g) \<and>
         is_path_exists g (player_pos g) (goal_pos g)"
proof -
  let ?g0 = "\<lparr>width = w, height = h, difficulty = d,
        cells = map (\<lambda>x. map (\<lambda>y. new_Cell x y) [0..h - 1]) [0..w - 1],
        player_pos = (0, 0), ai_pos = (w - 1, h - 1), goal_pos = (w - 1, 0)\<rparr>"
  from assms obtain g1 g2 n where
    u1: "update_cell ?g0 0 0 (\<lambda>c. c\<lparr>is_start := True\<rparr>) = Inr g1"
    and u2: "update_cell g1 (width g1 - 1) 0 (\<lambda>c. c\<lparr>is_goal := True\<rparr>) = Inr g2"
    and pl: "place_obstacles rs n 0
                 (g2\<lparr>player_pos := (0, height g2 - 1),
                     ai_pos := (width g2 - 1, height g2 - 1),
                     goal_pos := (width g2 - 1, 0)\<rparr>) = Some (Inr g)"
    by (auto simp: Grid_init_def generate_grid_def Let_def split: sum.splits)
  let ?g3 = "g2\<lparr>player_pos := (0, height g2 - 1),
                     ai_pos := (width g2 - 1, height g2 - 1),
                     goal_pos := (width g2 - 1, 0)\<rparr>"
  have f0: "all_free ?g0" by (rule all_free_new)
  from update_cell_all_free [OF f0 u1] have f1: "all_free g1" and d1: "width g1 = w" "height g1 = h"
    by simp_all
  from update_cell_all_free [OF f1 u2] have f2: "all_free g2" and d2: "width g2 = w" "height g2 = h"
    using d1 by simp_all
  have f3: "all_free ?g3" using f2 by (simp add: all_free_positions)
  have wh: "1 \<le> w" "1 \<le> h"
    using new_grid_flag_error [of w h d "(0, 0)" "(w - 1, h - 1)" "(w - 1, 0)"] u1
    by (cases "w \<le> 0 \<or> h \<le> 0"; force)+
  have "((0, height ?g3 - 1), (width ?g3 - 1, 0)) \<in> (edges ?g3)\<^sup>*"
    by (rule all_free_solvable [OF f3]) (use wh d2 in simp_all)
  then have "is_path_exists ?g3 (player_pos ?g3) (goal_pos ?g3)"
    by (simp add: is_path_exists_iff)
  from place_obstacles_solvable [OF this pl]
  have ex: "is_path_exists g (player_pos g) (goal_pos g)" .
  then have "(player_pos g, goal_pos g) \<in> (edges g)\<^sup>*"
    by (simp add: is_path_exists_iff)
  from reach_walk [OF this] ex show ?thesis by blast
qed

theorem generate_grid_solvable_witness:
  "map_option (map_sum id (\<lambda>g. (width g, height g, is_obstacle (cell_at g 1 1),
                                 player_pos g, goal_pos g,
                                 is_walk g (0, 2) [(0, 1), (0, 0), (1, 0), (2, 0)],
                                 is_path_exists g (player_pos g) (goal_pos g))))
     (Grid_init 3 3 EASY [(1, 1)]) = Some (Inr (3, 3, True, (0, 2), (2, 0), True, True))"
proof -
  have e: "map_option (map_sum id (\<lambda>g. (width g, height g, is_obstacle (cell_at g 1 1),
                                 player_pos g, goal_pos g,
                                 is_walk g (0, 2) [(0, 1), (0, 0), (1, 0), (2, 0)])))
     (Grid_init 3 3 EASY [(1, 1)]) = Some (Inr (3, 3, True, (0, 2), (2, 0), True))"
    by code_simp
  then obtain g where g: "Grid_init 3 3 EASY [(1, 1)] = Some (Inr g)"
    by (cases "Grid_init 3 3 EASY [(1, 1)]") (auto elim: sum.exhaust [of _ thesis] simp: map_sum_def split: sum.splits)
  from generate_grid_solvable [OF g] e g show ?thesis by simp
qed

subsection \<open>Failure of grid construction\<close>




end
